theory Spec2Isabelle
  imports Complex_Main
begin

section \<open>Per-key rate limiters: sliding window and throttling\<close>

text \<open>
  The two limiters of \<^verbatim>\<open>rate_limiter.py\<close> and \<^verbatim>\<open>rate_limiter_throttling.py\<close>.
  A user id is a string. Timestamps and durations are real numbers. Every value that the
  source obtains from \<^verbatim>\<open>time.time()\<close> is a parameter of the operation that reads it, one
  parameter per read, in the order of the reads.

  The operations are given twice. The first part takes every difference of the source
  (\<open>-\<close>) exactly. The second part takes every difference as Python computes it on floats,
  the exact difference rounded to binary64; its constants end in \<open>64\<close>.
\<close>

type_synonym user_id = string

type_synonym timestamp = real

datatype error = IndexError

subsection \<open>SlidingWindowRateLimiter\<close>

text \<open>
  The object's three attributes. \<open>users_history\<close> is the dictionary from user id to the
  deque of timestamps, the deque written as a list with the left end first.
\<close>

record sw_state =
  window_size :: real
  max_requests :: int
  users_history :: "user_id \<rightharpoonup> timestamp list"

definition SlidingWindowRateLimiter :: "real \<Rightarrow> int \<Rightarrow> sw_state" where
  "SlidingWindowRateLimiter w n =
     \<lparr>window_size = w, max_requests = n, users_history = Map.empty\<rparr>"

text \<open>
  The loop of \<^verbatim>\<open>_cleanup_window\<close>:
  \<^verbatim>\<open>while d and d[0] < window_start_time: d.popleft()\<close>.
\<close>

fun popleft_while :: "timestamp \<Rightarrow> timestamp list \<Rightarrow> timestamp list" where
  "popleft_while window_start_time [] = []"
| "popleft_while window_start_time (x # xs) =
     (if x < window_start_time then popleft_while window_start_time xs else x # xs)"

text \<open>
  \<^verbatim>\<open>_cleanup_window(user_id, current_time)\<close>: nothing for a user without an entry;
  otherwise the loop, then the entry is deleted when its deque is empty.
\<close>

definition cleanup_window :: "sw_state \<Rightarrow> user_id \<Rightarrow> timestamp \<Rightarrow> sw_state" where
  "cleanup_window s u current_time =
     (case users_history s u of
        None \<Rightarrow> s
      | Some d \<Rightarrow>
          (let window_start_time = current_time - window_size s;
               d' = popleft_while window_start_time d
           in if d' = [] then s\<lparr>users_history := (users_history s)(u := None)\<rparr>
              else s\<lparr>users_history := (users_history s)(u \<mapsto> d')\<rparr>))"

text \<open>
  \<^verbatim>\<open>can_send_message(user_id)\<close>, with \<open>current_time\<close> the clock value it reads.
  It returns the answer and the state left by the cleanup.
\<close>

definition sw_can_send_message :: "sw_state \<Rightarrow> user_id \<Rightarrow> timestamp \<Rightarrow> bool \<times> sw_state" where
  "sw_can_send_message s u current_time =
     (let s' = cleanup_window s u current_time
      in (case users_history s' u of
            None \<Rightarrow> True
          | Some d \<Rightarrow> int (length d) < max_requests s', s'))"

text \<open>
  \<^verbatim>\<open>record_message(user_id)\<close>. The clock is read twice: \<open>t_check\<close> inside
  \<^verbatim>\<open>can_send_message\<close>, then \<open>current_time\<close> for the timestamp that is appended.
\<close>

definition sw_record_message ::
  "sw_state \<Rightarrow> user_id \<Rightarrow> timestamp \<Rightarrow> timestamp \<Rightarrow> bool \<times> sw_state" where
  "sw_record_message s u t_check current_time =
     (case sw_can_send_message s u t_check of
        (True, s') \<Rightarrow>
          (let d = (case users_history s' u of None \<Rightarrow> [] | Some d \<Rightarrow> d)
           in (True, s'\<lparr>users_history := (users_history s')(u \<mapsto> d @ [current_time])\<rparr>))
      | (False, s') \<Rightarrow> (False, s'))"

text \<open>
  \<^verbatim>\<open>time_until_next_allowed(user_id)\<close>. Reading \<^verbatim>\<open>d[0]\<close> of an empty deque raises
  \<^verbatim>\<open>IndexError\<close>, which is a result of the model.
\<close>

definition sw_time_until_next_allowed ::
  "sw_state \<Rightarrow> user_id \<Rightarrow> timestamp \<Rightarrow> (error + real) \<times> sw_state" where
  "sw_time_until_next_allowed s u current_time =
     (let s' = cleanup_window s u current_time
      in (case users_history s' u of
            None \<Rightarrow> Inr 0
          | Some d \<Rightarrow>
              if int (length d) < max_requests s' then Inr 0
              else (case d of
                      [] \<Rightarrow> Inl IndexError
                    | oldest_message_time # _ \<Rightarrow>
                        Inr (max 0 (window_size s' - (current_time - oldest_message_time)))),
          s'))"

subsection \<open>ThrottlingRateLimiter\<close>

record th_state =
  min_interval :: real
  last_message_time :: "user_id \<rightharpoonup> timestamp"

definition ThrottlingRateLimiter :: "real \<Rightarrow> th_state" where
  "ThrottlingRateLimiter i = \<lparr>min_interval = i, last_message_time = Map.empty\<rparr>"

text \<open>
  \<^verbatim>\<open>can_send_message\<close> reads the clock only for a user with an entry; \<open>now\<close> is that value.
\<close>

definition th_can_send_message :: "th_state \<Rightarrow> user_id \<Rightarrow> timestamp \<Rightarrow> bool" where
  "th_can_send_message s u now =
     (case last_message_time s u of
        None \<Rightarrow> True
      | Some last_time \<Rightarrow> min_interval s \<le> now - last_time)"

text \<open>
  \<^verbatim>\<open>record_message\<close>: \<open>t_check\<close> is the clock value of the check (read only for a
  user with an entry), \<open>now\<close> the one stored.
\<close>

definition th_record_message ::
  "th_state \<Rightarrow> user_id \<Rightarrow> timestamp \<Rightarrow> timestamp \<Rightarrow> bool \<times> th_state" where
  "th_record_message s u t_check now =
     (if th_can_send_message s u t_check
      then (True, s\<lparr>last_message_time := (last_message_time s)(u \<mapsto> now)\<rparr>)
      else (False, s))"

definition th_time_until_next_allowed :: "th_state \<Rightarrow> user_id \<Rightarrow> timestamp \<Rightarrow> real" where
  "th_time_until_next_allowed s u now =
     (case last_message_time s u of
        None \<Rightarrow> 0
      | Some last_time \<Rightarrow> max 0 (min_interval s - (now - last_time)))"

subsection \<open>Sequences of calls\<close>

text \<open>
  A call of one of the three public methods, with the clock values it reads, and what it
  returns. Both classes have the same three methods.
\<close>

datatype call =
  CanSend user_id timestamp
| Record user_id timestamp timestamp
| TimeUntil user_id timestamp

datatype outcome = Answer bool | Wait real | Raised error

fun readings :: "call \<Rightarrow> timestamp list" where
  "readings (CanSend u t) = [t]"
| "readings (Record u t_check t) = [t_check, t]"
| "readings (TimeUntil u t) = [t]"

fun sw_call :: "sw_state \<Rightarrow> call \<Rightarrow> outcome \<times> sw_state" where
  "sw_call s (CanSend u t) = (case sw_can_send_message s u t of (b, s') \<Rightarrow> (Answer b, s'))"
| "sw_call s (Record u t_check t) =
     (case sw_record_message s u t_check t of (b, s') \<Rightarrow> (Answer b, s'))"
| "sw_call s (TimeUntil u t) =
     (case sw_time_until_next_allowed s u t of
        (Inr w, s') \<Rightarrow> (Wait w, s')
      | (Inl e, s') \<Rightarrow> (Raised e, s'))"

fun th_call :: "th_state \<Rightarrow> call \<Rightarrow> outcome \<times> th_state" where
  "th_call s (CanSend u t) = (Answer (th_can_send_message s u t), s)"
| "th_call s (Record u t_check t) =
     (case th_record_message s u t_check t of (b, s') \<Rightarrow> (Answer b, s'))"
| "th_call s (TimeUntil u t) = (Wait (th_time_until_next_allowed s u t), s)"

text \<open>The state after a sequence of calls, and the outcomes of the calls in order.\<close>

fun sw_run :: "sw_state \<Rightarrow> call list \<Rightarrow> sw_state" where
  "sw_run s [] = s"
| "sw_run s (c # cs) = sw_run (snd (sw_call s c)) cs"

fun th_run :: "th_state \<Rightarrow> call list \<Rightarrow> th_state" where
  "th_run s [] = s"
| "th_run s (c # cs) = th_run (snd (th_call s c)) cs"

fun th_outcomes :: "th_state \<Rightarrow> call list \<Rightarrow> outcome list" where
  "th_outcomes s [] = []"
| "th_outcomes s (c # cs) = fst (th_call s c) # th_outcomes (snd (th_call s c)) cs"

text \<open>The clock never goes back over a sequence of calls.\<close>

definition clock_monotone :: "call list \<Rightarrow> bool" where
  "clock_monotone cs = sorted (concat (map readings cs))"

subsection \<open>Invariants of the dictionary of histories\<close>

text \<open>
  No user has an empty deque, and no deque is longer than \<open>max_requests\<close>, or than one
  timestamp when \<open>max_requests\<close> is below one.
\<close>

definition entries_nonempty :: "sw_state \<Rightarrow> bool" where
  "entries_nonempty s = (\<forall>u d. users_history s u = Some d \<longrightarrow> d \<noteq> [])"

definition entries_bounded :: "sw_state \<Rightarrow> bool" where
  "entries_bounded s =
     (\<forall>u d. users_history s u = Some d \<longrightarrow> int (length d) \<le> max 1 (max_requests s))"

text \<open>
  The number of timestamps of a user that lie in the window ending at \<open>now\<close>, that is,
  with value at least \<open>now - window_size\<close>.
\<close>

definition in_window_count :: "sw_state \<Rightarrow> user_id \<Rightarrow> timestamp \<Rightarrow> nat" where
  "in_window_count s u now =
     (case users_history s u of
        None \<Rightarrow> 0
      | Some d \<Rightarrow> length (filter (\<lambda>x. now - window_size s \<le> x) d))"

section \<open>The operations with binary64 differences\<close>

subsection \<open>Rounding to binary64\<close>

text \<open>
  A Python float is an IEEE binary64 number, and the difference of two floats is the exact
  difference rounded to the nearest binary64 number, a tie going to the even significand.
  \<open>rne\<close> rounds a real number to the nearest integer, a tie going to the even one.
  \<open>binade x\<close> is the binary exponent of \<open>x\<close>, and \<open>-1022\<close> for the subnormal numbers; the
  binary64 numbers with this exponent are the integer multiples of \<open>2\<close> to the power
  \<open>binade x - 52\<close>, and \<open>rgrid e\<close> rounds to the nearest integer multiple of \<open>2\<close> to the
  power \<open>e\<close>. \<open>fl64\<close> is the rounding and \<open>fsub\<close> the difference of floats. An int operand
  of a difference is converted to a float first, which changes no int below \<open>2\<close> to the
  power \<open>53\<close>. Overflow is not part of \<open>fl64\<close>: above the largest binary64 number it goes
  on rounding to 53 bits, to a number that compares with every binary64 number as
  infinity does.
\<close>

definition rne :: "real \<Rightarrow> int" where
  "rne q =
     (let f = \<lfloor>q\<rfloor>; r = q - of_int f
      in if r < 1 / 2 then f else if 1 / 2 < r then f + 1 else if even f then f else f + 1)"

definition binade :: "real \<Rightarrow> int" where
  "binade x = max \<lfloor>log 2 \<bar>x\<bar>\<rfloor> (- 1022)"

definition rgrid :: "int \<Rightarrow> real \<Rightarrow> real" where
  "rgrid e x = of_int (rne (x / 2 powr of_int e)) * 2 powr of_int e"

definition fl64 :: "real \<Rightarrow> real" where
  "fl64 x = of_int (rne (x / 2 powr of_int (binade x - 52))) * 2 powr of_int (binade x - 52)"

definition fsub :: "real \<Rightarrow> real \<Rightarrow> real" where
  "fsub a b = fl64 (a - b)"

text \<open>\<open>binary64 x\<close>: the number \<open>x\<close> is a float, the rounding leaves it as it is.\<close>

definition binary64 :: "real \<Rightarrow> bool" where
  "binary64 x = (fl64 x = x)"

text \<open>The floats are among the integer multiples of the smallest positive float.\<close>

definition on_grid :: "real \<Rightarrow> bool" where
  "on_grid x = (\<exists>k :: int. x = of_int k * 2 powr (- 1074))"

subsection \<open>The two classes on floats\<close>

text \<open>
  The operations of the two classes as above, with \<open>fsub\<close> where the source subtracts:
  \<^verbatim>\<open>current_time - self.window_size\<close>, \<^verbatim>\<open>current_time - oldest_message_time\<close> and
  \<^verbatim>\<open>self.window_size - (...)\<close> in the sliding window, \<^verbatim>\<open>time.time() - last_time\<close> and
  \<^verbatim>\<open>self.min_interval - (...)\<close> in the throttling limiter. Comparisons are exact in Python
  and in the model.
\<close>

definition cleanup_window64 :: "sw_state \<Rightarrow> user_id \<Rightarrow> timestamp \<Rightarrow> sw_state" where
  "cleanup_window64 s u current_time =
     (case users_history s u of
        None \<Rightarrow> s
      | Some d \<Rightarrow>
          (let window_start_time = fsub current_time (window_size s);
               d' = popleft_while window_start_time d
           in if d' = [] then s\<lparr>users_history := (users_history s)(u := None)\<rparr>
              else s\<lparr>users_history := (users_history s)(u \<mapsto> d')\<rparr>))"

definition sw_can_send_message64 :: "sw_state \<Rightarrow> user_id \<Rightarrow> timestamp \<Rightarrow> bool \<times> sw_state" where
  "sw_can_send_message64 s u current_time =
     (let s' = cleanup_window64 s u current_time
      in (case users_history s' u of
            None \<Rightarrow> True
          | Some d \<Rightarrow> int (length d) < max_requests s', s'))"

definition sw_record_message64 ::
  "sw_state \<Rightarrow> user_id \<Rightarrow> timestamp \<Rightarrow> timestamp \<Rightarrow> bool \<times> sw_state" where
  "sw_record_message64 s u t_check current_time =
     (case sw_can_send_message64 s u t_check of
        (True, s') \<Rightarrow>
          (let d = (case users_history s' u of None \<Rightarrow> [] | Some d \<Rightarrow> d)
           in (True, s'\<lparr>users_history := (users_history s')(u \<mapsto> d @ [current_time])\<rparr>))
      | (False, s') \<Rightarrow> (False, s'))"

definition sw_time_until_next_allowed64 ::
  "sw_state \<Rightarrow> user_id \<Rightarrow> timestamp \<Rightarrow> (error + real) \<times> sw_state" where
  "sw_time_until_next_allowed64 s u current_time =
     (let s' = cleanup_window64 s u current_time
      in (case users_history s' u of
            None \<Rightarrow> Inr 0
          | Some d \<Rightarrow>
              if int (length d) < max_requests s' then Inr 0
              else (case d of
                      [] \<Rightarrow> Inl IndexError
                    | oldest_message_time # _ \<Rightarrow>
                        Inr (max 0 (fsub (window_size s')
                                      (fsub current_time oldest_message_time)))),
          s'))"

definition th_can_send_message64 :: "th_state \<Rightarrow> user_id \<Rightarrow> timestamp \<Rightarrow> bool" where
  "th_can_send_message64 s u now =
     (case last_message_time s u of
        None \<Rightarrow> True
      | Some last_time \<Rightarrow> min_interval s \<le> fsub now last_time)"

definition th_record_message64 ::
  "th_state \<Rightarrow> user_id \<Rightarrow> timestamp \<Rightarrow> timestamp \<Rightarrow> bool \<times> th_state" where
  "th_record_message64 s u t_check now =
     (if th_can_send_message64 s u t_check
      then (True, s\<lparr>last_message_time := (last_message_time s)(u \<mapsto> now)\<rparr>)
      else (False, s))"

definition th_time_until_next_allowed64 :: "th_state \<Rightarrow> user_id \<Rightarrow> timestamp \<Rightarrow> real" where
  "th_time_until_next_allowed64 s u now =
     (case last_message_time s u of
        None \<Rightarrow> 0
      | Some last_time \<Rightarrow> max 0 (fsub (min_interval s) (fsub now last_time)))"

fun sw_call64 :: "sw_state \<Rightarrow> call \<Rightarrow> outcome \<times> sw_state" where
  "sw_call64 s (CanSend u t) =
     (case sw_can_send_message64 s u t of (b, s') \<Rightarrow> (Answer b, s'))"
| "sw_call64 s (Record u t_check t) =
     (case sw_record_message64 s u t_check t of (b, s') \<Rightarrow> (Answer b, s'))"
| "sw_call64 s (TimeUntil u t) =
     (case sw_time_until_next_allowed64 s u t of
        (Inr w, s') \<Rightarrow> (Wait w, s')
      | (Inl e, s') \<Rightarrow> (Raised e, s'))"

fun th_call64 :: "th_state \<Rightarrow> call \<Rightarrow> outcome \<times> th_state" where
  "th_call64 s (CanSend u t) = (Answer (th_can_send_message64 s u t), s)"
| "th_call64 s (Record u t_check t) =
     (case th_record_message64 s u t_check t of (b, s') \<Rightarrow> (Answer b, s'))"
| "th_call64 s (TimeUntil u t) = (Wait (th_time_until_next_allowed64 s u t), s)"

fun sw_run64 :: "sw_state \<Rightarrow> call list \<Rightarrow> sw_state" where
  "sw_run64 s [] = s"
| "sw_run64 s (c # cs) = sw_run64 (snd (sw_call64 s c)) cs"

fun th_run64 :: "th_state \<Rightarrow> call list \<Rightarrow> th_state" where
  "th_run64 s [] = s"
| "th_run64 s (c # cs) = th_run64 (snd (th_call64 s c)) cs"

fun th_outcomes64 :: "th_state \<Rightarrow> call list \<Rightarrow> outcome list" where
  "th_outcomes64 s [] = []"
| "th_outcomes64 s (c # cs) = fst (th_call64 s c) # th_outcomes64 (snd (th_call64 s c)) cs"

section \<open>Properties\<close>

subsection \<open>The cleanup\<close>

lemma popleft_while_dropWhile:
  "popleft_while w d = dropWhile (\<lambda>x. x < w) d"
  by (induction d) simp_all

lemma popleft_while_idem: "popleft_while w (popleft_while w d) = popleft_while w d"
  by (induction d) simp_all

lemma popleft_while_length: "length (popleft_while w d) \<le> length d"
  by (induction d) (simp_all add: le_SucI)

lemma popleft_while_same_length:
  "length (popleft_while w d) = length d \<Longrightarrow> popleft_while w d = d"
proof (cases d)
  case Nil
  then show ?thesis by simp
next
  case (Cons x xs)
  assume len: "length (popleft_while w d) = length d"
  show ?thesis
  proof (cases "x < w")
    case True
    have "length (popleft_while w xs) \<le> length xs" by (rule popleft_while_length)
    with len Cons True show ?thesis by simp
  next
    case False
    with Cons show ?thesis by simp
  qed
qed

lemma popleft_while_hd:
  "popleft_while w d = x # xs \<Longrightarrow> w \<le> x"
  by (induction d) (simp_all split: if_splits)

lemma popleft_while_subset: "set (popleft_while w d) \<subseteq> set d"
  by (induction d) auto

lemma popleft_while_all_old:
  "\<forall>x \<in> set d. x < w \<Longrightarrow> popleft_while w d = []"
  by (induction d) simp_all

lemma cleanup_window_fields [simp]:
  "window_size (cleanup_window s u t) = window_size s"
  "max_requests (cleanup_window s u t) = max_requests s"
  by (simp_all add: cleanup_window_def Let_def split: option.splits)

lemma cleanup_window_other [simp]:
  "v \<noteq> u \<Longrightarrow> users_history (cleanup_window s u t) v = users_history s v"
  by (simp add: cleanup_window_def Let_def split: option.splits)

lemma cleanup_window_entry:
  "users_history (cleanup_window s u t) u =
     (case users_history s u of
        None \<Rightarrow> None
      | Some d \<Rightarrow> if popleft_while (t - window_size s) d = [] then None
                  else Some (popleft_while (t - window_size s) d))"
  by (simp add: cleanup_window_def Let_def split: option.splits)

lemma cleanup_window_nonempty:
  "users_history (cleanup_window s u t) u = Some d \<Longrightarrow> d \<noteq> []"
  by (auto simp: cleanup_window_entry split: option.splits if_splits)

lemma cleanup_window_idem:
  "cleanup_window (cleanup_window s u t) u t = cleanup_window s u t"
  by (cases "users_history s u")
     (simp_all add: cleanup_window_def Let_def popleft_while_idem)

lemma sw_can_send_message_state:
  "snd (sw_can_send_message s u t) = cleanup_window s u t"
  by (simp add: sw_can_send_message_def Let_def)

lemma sw_time_until_next_allowed_state:
  "snd (sw_time_until_next_allowed s u t) = cleanup_window s u t"
  by (simp add: sw_time_until_next_allowed_def Let_def)

lemma sw_can_send_message_answer:
  "fst (sw_can_send_message s u t) =
     (case users_history (cleanup_window s u t) u of
        None \<Rightarrow> True
      | Some d \<Rightarrow> int (length d) < max_requests s)"
  by (simp add: sw_can_send_message_def Let_def split: option.splits)

lemma sw_record_message_denied:
  "\<not> fst (sw_can_send_message s u tc) \<Longrightarrow>
   sw_record_message s u tc t = (False, cleanup_window s u tc)"
  by (cases "sw_can_send_message s u tc")
     (auto simp: sw_record_message_def sw_can_send_message_state [symmetric])

lemma sw_record_message_admitted:
  "fst (sw_can_send_message s u tc) \<Longrightarrow>
   sw_record_message s u tc t =
     (True, (cleanup_window s u tc)\<lparr>users_history :=
        (users_history (cleanup_window s u tc))
          (u \<mapsto> (case users_history (cleanup_window s u tc) u of None \<Rightarrow> [] | Some d \<Rightarrow> d) @ [t])\<rparr>)"
  by (cases "sw_can_send_message s u tc")
     (auto simp: sw_record_message_def Let_def sw_can_send_message_state [symmetric])

lemma sw_record_message_answer:
  "fst (sw_record_message s u tc t) = fst (sw_can_send_message s u tc)"
  by (cases "fst (sw_can_send_message s u tc)")
     (simp_all add: sw_record_message_denied sw_record_message_admitted)

lemma sw_call_CanSend:
  "sw_call s (CanSend u t) = (Answer (fst (sw_can_send_message s u t)), cleanup_window s u t)"
  by (simp add: sw_can_send_message_state [symmetric] split: prod.splits)

lemma sw_call_TimeUntil_state:
  "snd (sw_call s (TimeUntil u t)) = cleanup_window s u t"
  by (simp add: sw_time_until_next_allowed_state [symmetric] split: prod.splits sum.splits)

lemma sw_call_Record:
  "sw_call s (Record u tc t) =
     (Answer (fst (sw_record_message s u tc t)), snd (sw_record_message s u tc t))"
  by (simp split: prod.splits)

lemma sw_record_message_fields [simp]:
  "window_size (snd (sw_record_message s u tc t)) = window_size s"
  "max_requests (snd (sw_record_message s u tc t)) = max_requests s"
  by (cases "fst (sw_can_send_message s u tc)";
      simp add: sw_record_message_denied sw_record_message_admitted)+

lemma sw_call_fields [simp]:
  "window_size (snd (sw_call s c)) = window_size s"
  "max_requests (snd (sw_call s c)) = max_requests s"
  by (cases c; simp only: sw_call_CanSend sw_call_TimeUntil_state sw_call_Record snd_conv
        cleanup_window_fields sw_record_message_fields)+

lemma sw_run_fields [simp]:
  "window_size (sw_run s cs) = window_size s"
  "max_requests (sw_run s cs) = max_requests s"
  by (induction cs arbitrary: s) simp_all

lemma cleanup_window_nonempty_inv:
  "entries_nonempty s \<Longrightarrow> entries_nonempty (cleanup_window s u t)"
  unfolding entries_nonempty_def
proof (intro allI impI)
  fix v d
  assume inv: "\<forall>u d. users_history s u = Some d \<longrightarrow> d \<noteq> []"
    and e: "users_history (cleanup_window s u t) v = Some d"
  show "d \<noteq> []"
  proof (cases "v = u")
    case True
    with e show ?thesis by (simp add: cleanup_window_nonempty)
  next
    case False
    with e inv show ?thesis by simp
  qed
qed

lemma cleanup_window_bounded_inv:
  "entries_bounded s \<Longrightarrow> entries_bounded (cleanup_window s u t)"
  unfolding entries_bounded_def
proof (intro allI impI)
  fix v d
  assume inv: "\<forall>u d. users_history s u = Some d \<longrightarrow> int (length d) \<le> max 1 (max_requests s)"
    and e: "users_history (cleanup_window s u t) v = Some d"
  show "int (length d) \<le> max 1 (max_requests (cleanup_window s u t))"
  proof (cases "v = u")
    case True
    with e obtain d0 where d0: "users_history s u = Some d0"
      and d: "d = popleft_while (t - window_size s) d0"
      by (auto simp: cleanup_window_entry split: option.splits if_splits)
    have "length d \<le> length d0" unfolding d by (rule popleft_while_length)
    moreover from inv d0 have "int (length d0) \<le> max 1 (max_requests s)" by blast
    ultimately show ?thesis by simp
  next
    case False
    with e inv show ?thesis by simp
  qed
qed

lemma store_nonempty_inv:
  "entries_nonempty s \<Longrightarrow> d \<noteq> [] \<Longrightarrow>
   entries_nonempty (s\<lparr>users_history := (users_history s)(u \<mapsto> d)\<rparr>)"
  by (simp add: entries_nonempty_def)

lemma store_bounded_inv:
  "entries_bounded s \<Longrightarrow> int (length d) \<le> max 1 (max_requests s) \<Longrightarrow>
   entries_bounded (s\<lparr>users_history := (users_history s)(u \<mapsto> d)\<rparr>)"
  by (simp add: entries_bounded_def)

lemma sw_record_message_nonempty_inv:
  "entries_nonempty s \<Longrightarrow> entries_nonempty (snd (sw_record_message s u tc t))"
proof (cases "fst (sw_can_send_message s u tc)")
  case True
  assume "entries_nonempty s"
  then have "entries_nonempty (cleanup_window s u tc)" by (rule cleanup_window_nonempty_inv)
  then show ?thesis
    by (simp add: sw_record_message_admitted True store_nonempty_inv)
next
  case False
  assume "entries_nonempty s"
  then have "entries_nonempty (cleanup_window s u tc)" by (rule cleanup_window_nonempty_inv)
  then show ?thesis by (simp add: sw_record_message_denied False)
qed

lemma sw_record_message_bounded_inv:
  "entries_bounded s \<Longrightarrow> entries_bounded (snd (sw_record_message s u tc t))"
proof (cases "fst (sw_can_send_message s u tc)")
  case True
  assume "entries_bounded s"
  then have b: "entries_bounded (cleanup_window s u tc)" by (rule cleanup_window_bounded_inv)
  from True have "case users_history (cleanup_window s u tc) u of
        None \<Rightarrow> True | Some d \<Rightarrow> int (length d) < max_requests s"
    by (simp add: sw_can_send_message_answer)
  then have "int (length ((case users_history (cleanup_window s u tc) u of
        None \<Rightarrow> [] | Some d \<Rightarrow> d) @ [t])) \<le> max 1 (max_requests (cleanup_window s u tc))"
    by (simp split: option.splits)
  with b show ?thesis
    by (simp only: sw_record_message_admitted [OF True] snd_conv store_bounded_inv)
next
  case False
  assume "entries_bounded s"
  then have "entries_bounded (cleanup_window s u tc)" by (rule cleanup_window_bounded_inv)
  then show ?thesis by (simp add: sw_record_message_denied False)
qed

lemma sw_call_nonempty_inv:
  "entries_nonempty s \<Longrightarrow> entries_nonempty (snd (sw_call s c))"
  by (cases c)
     (simp_all only: sw_call_CanSend sw_call_TimeUntil_state sw_call_Record snd_conv
        cleanup_window_nonempty_inv sw_record_message_nonempty_inv)

lemma sw_call_bounded_inv:
  "entries_bounded s \<Longrightarrow> entries_bounded (snd (sw_call s c))"
  by (cases c)
     (simp_all only: sw_call_CanSend sw_call_TimeUntil_state sw_call_Record snd_conv
        cleanup_window_bounded_inv sw_record_message_bounded_inv)

lemma sw_run_nonempty_inv:
  "entries_nonempty s \<Longrightarrow> entries_nonempty (sw_run s cs)"
  by (induction cs arbitrary: s) (simp_all add: sw_call_nonempty_inv)

lemma sw_run_bounded_inv:
  "entries_bounded s \<Longrightarrow> entries_bounded (sw_run s cs)"
  by (induction cs arbitrary: s) (simp_all add: sw_call_bounded_inv)

lemma initial_invariants:
  "entries_nonempty (SlidingWindowRateLimiter w n)"
  "entries_bounded (SlidingWindowRateLimiter w n)"
  by (simp_all add: entries_nonempty_def entries_bounded_def SlidingWindowRateLimiter_def)

subsection \<open>Waiting times\<close>

text \<open>
  C3. The waiting time returned by \<open>time_until_next_allowed\<close> is never negative, for
  either limiter, in any state and at any clock value, also one that lies before the stored
  timestamps. For the sliding window the call returns a number: the read of the oldest
  timestamp never raises.
\<close>

theorem time_until_next_allowed_nonneg:
  "(\<exists>w. fst (sw_time_until_next_allowed s u t) = Inr w \<and> 0 \<le> w)
   \<and> 0 \<le> th_time_until_next_allowed s' u' t'"
proof
  show "\<exists>w. fst (sw_time_until_next_allowed s u t) = Inr w \<and> 0 \<le> w"
  proof (cases "users_history (cleanup_window s u t) u")
    case None
    then show ?thesis by (simp add: sw_time_until_next_allowed_def Let_def)
  next
    case (Some d)
    then have "d \<noteq> []" by (rule cleanup_window_nonempty)
    then obtain x xs where "d = x # xs" by (cases d) auto
    with Some show ?thesis by (simp add: sw_time_until_next_allowed_def Let_def)
  qed
  show "0 \<le> th_time_until_next_allowed s' u' t'"
    by (simp add: th_time_until_next_allowed_def split: option.splits)
qed

subsection \<open>Repeated checks\<close>

lemma sw_call_TimeUntil:
  "sw_call s (TimeUntil u t) =
     (case fst (sw_time_until_next_allowed s u t) of Inr w \<Rightarrow> Wait w | Inl e \<Rightarrow> Raised e,
      cleanup_window s u t)"
  by (simp add: sw_time_until_next_allowed_state [symmetric] split: prod.splits sum.splits)

lemma sw_can_send_message_after_cleanup:
  "sw_can_send_message (cleanup_window s u t) u t = sw_can_send_message s u t"
  by (simp add: sw_can_send_message_def cleanup_window_idem)

lemma sw_time_until_next_allowed_after_cleanup:
  "sw_time_until_next_allowed (cleanup_window s u t) u t = sw_time_until_next_allowed s u t"
  by (simp add: sw_time_until_next_allowed_def cleanup_window_idem)

lemma sw_call_after_cleanup:
  "c \<in> {CanSend u t, TimeUntil u t} \<Longrightarrow> sw_call (cleanup_window s u t) c = sw_call s c"
  by (auto simp only: sw_call_CanSend sw_call_TimeUntil sw_can_send_message_after_cleanup
        sw_time_until_next_allowed_after_cleanup cleanup_window_idem)

lemma sw_call_read_only_state:
  "c \<in> {CanSend u t, TimeUntil u t} \<Longrightarrow> snd (sw_call s c) = cleanup_window s u t"
  by (auto simp only: sw_call_CanSend sw_call_TimeUntil snd_conv)

lemma sw_run_read_only:
  "set cs \<subseteq> {CanSend u t, TimeUntil u t} \<Longrightarrow>
   sw_run (cleanup_window s u t) cs = cleanup_window s u t"
proof (induction cs)
  case Nil
  show ?case by simp
next
  case (Cons c cs)
  then have c: "c \<in> {CanSend u t, TimeUntil u t}"
    and cs: "set cs \<subseteq> {CanSend u t, TimeUntil u t}" by simp_all
  have "snd (sw_call (cleanup_window s u t) c) = cleanup_window s u t"
    by (simp only: sw_call_read_only_state [OF c] cleanup_window_idem)
  with Cons.IH [OF cs] show ?case by simp
qed

lemma th_call_read_only_state:
  "c \<in> {CanSend u t, TimeUntil u t} \<Longrightarrow> snd (th_call s c) = s"
  by auto

lemma th_run_read_only:
  "set cs \<subseteq> {CanSend u t, TimeUntil u t} \<Longrightarrow> th_run s cs = s"
proof (induction cs)
  case Nil
  show ?case by simp
next
  case (Cons c cs)
  then have c: "c \<in> {CanSend u t, TimeUntil u t}"
    and cs: "set cs \<subseteq> {CanSend u t, TimeUntil u t}" by simp_all
  from Cons.IH [OF cs] th_call_read_only_state [OF c] show ?case by simp
qed

text \<open>
  C9. Let \<open>c\<close> be \<open>can_send_message\<close> or \<open>time_until_next_allowed\<close> for a user at a clock
  value. When \<open>c\<close> is called again at the same clock value, after the first call and any
  number of further such checks for the same user at the same clock value and no
  \<open>record_message\<close>, it returns what the first call returned and leaves the state that the
  first call left. This holds for both limiters and for every state.
\<close>

theorem read_only_checks_idempotent:
  assumes "c \<in> {CanSend u t, TimeUntil u t}"
    and "set cs \<subseteq> {CanSend u t, TimeUntil u t}"
  shows "sw_call (sw_run (snd (sw_call s c)) cs) c = sw_call s c
       \<and> th_call (th_run (snd (th_call s' c)) cs) c = th_call s' c"
proof
  have "sw_run (snd (sw_call s c)) cs = cleanup_window s u t"
    by (simp only: sw_call_read_only_state [OF assms(1)] sw_run_read_only [OF assms(2)])
  then show "sw_call (sw_run (snd (sw_call s c)) cs) c = sw_call s c"
    by (simp only: sw_call_after_cleanup [OF assms(1)])
  show "th_call (th_run (snd (th_call s' c)) cs) c = th_call s' c"
    by (simp only: th_call_read_only_state [OF assms(1)] th_run_read_only [OF assms(2)])
qed

theorem read_only_checks_idempotent_witness:
  "CanSend ''u'' 11 \<in> {CanSend ''u'' 11, TimeUntil ''u'' 11}
   \<and> set [TimeUntil ''u'' 11, CanSend ''u'' 11] \<subseteq> {CanSend ''u'' 11, TimeUntil ''u'' 11}
   \<and> sw_call (sw_run (snd (sw_call
          \<lparr>window_size = 10, max_requests = 2, users_history = [''u'' \<mapsto> [0, 5]]\<rparr>
          (CanSend ''u'' 11))) [TimeUntil ''u'' 11, CanSend ''u'' 11]) (CanSend ''u'' 11)
       = (Answer True, \<lparr>window_size = 10, max_requests = 2, users_history = [''u'' \<mapsto> [5]]\<rparr>)
   \<and> th_call (th_run (snd (th_call
          \<lparr>min_interval = 10, last_message_time = [''u'' \<mapsto> 5]\<rparr>
          (CanSend ''u'' 11))) [TimeUntil ''u'' 11, CanSend ''u'' 11]) (CanSend ''u'' 11)
       = (Answer False, \<lparr>min_interval = 10, last_message_time = [''u'' \<mapsto> 5]\<rparr>)"
proof -
  have a: "CanSend ''u'' 11 \<in> {CanSend ''u'' 11, TimeUntil ''u'' 11}" by simp
  have b: "set [TimeUntil ''u'' 11, CanSend ''u'' 11] \<subseteq> {CanSend ''u'' 11, TimeUntil ''u'' 11}"
    by simp
  have c: "sw_call \<lparr>window_size = 10, max_requests = 2, users_history = [''u'' \<mapsto> [0, 5]]\<rparr>
             (CanSend ''u'' 11)
           = (Answer True, \<lparr>window_size = 10, max_requests = 2, users_history = [''u'' \<mapsto> [5]]\<rparr>)"
    by (simp add: sw_can_send_message_def cleanup_window_def)
  have d: "th_call \<lparr>min_interval = 10, last_message_time = [''u'' \<mapsto> 5]\<rparr> (CanSend ''u'' 11)
           = (Answer False, \<lparr>min_interval = 10, last_message_time = [''u'' \<mapsto> 5]\<rparr>)"
    by (simp add: th_can_send_message_def)
  from a b c d read_only_checks_idempotent [OF a b,
      of "\<lparr>window_size = 10, max_requests = 2, users_history = [''u'' \<mapsto> [0, 5]]\<rparr>"
         "\<lparr>min_interval = 10, last_message_time = [''u'' \<mapsto> 5]\<rparr>"]
  show ?thesis by (simp only: simp_thms)
qed

subsection \<open>Bound of the waiting time\<close>



subsection \<open>A denied record_message\<close>

lemma sw_denied_unchanged:
  assumes b: "entries_bounded s" and den: "\<not> fst (sw_record_message s u tc t)"
  shows "snd (sw_record_message s u tc t) = s"
proof -
  from den have den': "\<not> fst (sw_can_send_message s u tc)"
    by (simp add: sw_record_message_answer)
  then obtain d where d: "users_history (cleanup_window s u tc) u = Some d"
    and full: "\<not> int (length d) < max_requests s"
    by (auto simp: sw_can_send_message_answer split: option.splits)
  from d obtain d0 where d0: "users_history s u = Some d0"
    and dd: "d = popleft_while (tc - window_size s) d0"
    by (auto simp: cleanup_window_entry split: option.splits if_splits)
  from d have ne: "d \<noteq> []" by (rule cleanup_window_nonempty)
  from b d0 have bound: "int (length d0) \<le> max 1 (max_requests s)"
    by (simp add: entries_bounded_def)
  have le: "length d \<le> length d0" unfolding dd by (rule popleft_while_length)
  have "length d = length d0"
  proof (rule ccontr)
    assume "length d \<noteq> length d0"
    with le have "int (length d) < int (length d0)" by simp
    with bound have "int (length d) < max 1 (max_requests s)" by simp
    moreover from ne have "1 \<le> int (length d)" by (cases d) simp_all
    ultimately show False using full by simp
  qed
  with dd have "popleft_while (tc - window_size s) d0 = d0"
    by (simp add: popleft_while_same_length)
  with d0 ne dd have "cleanup_window s u tc = s"
    by (simp add: cleanup_window_def Let_def fun_upd_idem)
  with den' show ?thesis by (simp add: sw_record_message_denied)
qed

subsection \<open>The clock over a sequence of calls\<close>

lemma clock_monotone_Cons:
  "clock_monotone (c # cs) \<Longrightarrow>
   sorted (readings c) \<and> clock_monotone cs
   \<and> (\<forall>x \<in> set (readings c). \<forall>r \<in> set (concat (map readings cs)). x \<le> r)"
  by (simp add: clock_monotone_def sorted_append)

lemma clock_monotone_call:
  "clock_monotone cs \<Longrightarrow> c \<in> set cs \<Longrightarrow> sorted (readings c)"
proof (induction cs)
  case Nil
  then show ?case by simp
next
  case (Cons c' cs)
  from clock_monotone_Cons [OF Cons.prems(1)] Cons.IH Cons.prems(2) show ?case by auto
qed

subsection \<open>The limit on stored timestamps\<close>

text \<open>
  After any sequence of calls on a new sliding-window limiter no deque is longer than
  \<open>max_requests\<close>, provided \<open>max_requests\<close> is at least one; in general the bound is
  \<open>max 1 max_requests\<close>, and so is the bound on the timestamps inside any window.
\<close>

lemma sw_length_bound:
  assumes "users_history (sw_run (SlidingWindowRateLimiter w n) cs) u = Some d"
  shows "int (length d) \<le> max 1 n"
proof -
  have "entries_bounded (sw_run (SlidingWindowRateLimiter w n) cs)"
    by (rule sw_run_bounded_inv) (rule initial_invariants)
  with assms have "int (length d) \<le> max 1 (max_requests (sw_run (SlidingWindowRateLimiter w n) cs))"
    unfolding entries_bounded_def by blast
  then show ?thesis by (simp add: SlidingWindowRateLimiter_def)
qed

lemma sw_in_window_bound:
  "int (in_window_count (sw_run (SlidingWindowRateLimiter w n) cs) u now) \<le> max 1 n"
proof (cases "users_history (sw_run (SlidingWindowRateLimiter w n) cs) u")
  case None
  then show ?thesis by (simp add: in_window_count_def)
next
  case (Some d)
  have "in_window_count (sw_run (SlidingWindowRateLimiter w n) cs) u now \<le> length d"
    by (simp add: in_window_count_def Some)
  with sw_length_bound [OF Some] show ?thesis by simp
qed

lemma sw_positive_limit_bounds:
  assumes "1 \<le> n"
  shows "int (in_window_count (sw_run (SlidingWindowRateLimiter w n) cs) u now) \<le> n"
    and "users_history (sw_run (SlidingWindowRateLimiter w n) cs) u = Some d \<Longrightarrow> int (length d) \<le> n"
  using assms sw_in_window_bound [of w n cs u now] sw_length_bound [of w n cs u d] by simp_all

lemma sw_denied_appends_nothing:
  "\<not> fst (sw_record_message s u tc t) \<Longrightarrow>
   snd (sw_record_message s u tc t) = cleanup_window s u tc"
  by (simp add: sw_record_message_answer sw_record_message_denied)

text \<open>
  C1. With \<open>max_requests = 0\<close> the bound fails: the first \<open>record_message\<close> of a user is
  admitted, because a user without an entry is allowed before the count is compared with
  the limit. One timestamp then lies in the window, against a limit of zero.
\<close>

theorem sw_zero_limit_window_count:
  "clock_monotone [Record ''u'' 3 3, CanSend ''u'' 5]
   \<and> in_window_count (sw_run (SlidingWindowRateLimiter 10 0) [Record ''u'' 3 3, CanSend ''u'' 5])
        ''u'' 5 = 1
   \<and> max_requests (sw_run (SlidingWindowRateLimiter 10 0) [Record ''u'' 3 3, CanSend ''u'' 5]) = 0"
  by (simp add: clock_monotone_def in_window_count_def sw_record_message_def
        sw_can_send_message_def cleanup_window_def SlidingWindowRateLimiter_def)

text \<open>
  C4. With \<open>max_requests = 0\<close> the first \<open>record_message\<close> of a user returns true, and so
  does the next one made after the stored timestamp has left the window; in between the
  user is denied.
\<close>

theorem sw_zero_limit_admits:
  "fst (sw_record_message (SlidingWindowRateLimiter 10 0) ''u'' 0 0)
   \<and> \<not> fst (sw_record_message (sw_run (SlidingWindowRateLimiter 10 0) [Record ''u'' 0 0]) ''u'' 5 5)
   \<and> fst (sw_record_message (sw_run (SlidingWindowRateLimiter 10 0) [Record ''u'' 0 0]) ''u'' 11 11)"
  by (simp add: sw_record_message_def sw_can_send_message_def cleanup_window_def
        SlidingWindowRateLimiter_def)

text \<open>
  C8. With \<open>max_requests = 0\<close> the deque of a user holds one timestamp after the user's
  first \<open>record_message\<close>: its length exceeds the limit.
\<close>

theorem sw_zero_limit_length:
  "users_history (sw_run (SlidingWindowRateLimiter 10 0) [Record ''u'' 0 0]) ''u'' = Some [0]
   \<and> max_requests (sw_run (SlidingWindowRateLimiter 10 0) [Record ''u'' 0 0])
       < int (length [0 :: real])"
  by (simp add: sw_record_message_def sw_can_send_message_def cleanup_window_def
        SlidingWindowRateLimiter_def)

section \<open>Properties of the operations with binary64 differences\<close>

subsection \<open>The rounding\<close>

lemma rne_of_int [simp]: "rne (of_int n) = n"
  by (simp add: rne_def)

lemma rne_zero [simp]: "rne 0 = 0"
  using rne_of_int [of 0] by simp

lemma rne_bounds: "\<lfloor>q\<rfloor> \<le> rne q \<and> rne q \<le> \<lfloor>q\<rfloor> + 1"
  by (simp add: rne_def Let_def)

lemma rne_mono:
  assumes "a \<le> b" shows "rne a \<le> rne b"
proof (cases "\<lfloor>a\<rfloor> = \<lfloor>b\<rfloor>")
  case True
  with assms show ?thesis by (auto simp: rne_def Let_def)
next
  case False
  with assms have "\<lfloor>a\<rfloor> < \<lfloor>b\<rfloor>" by (simp add: floor_mono order.strict_iff_order)
  with rne_bounds [of a] rne_bounds [of b] show ?thesis by linarith
qed

lemma rne_minus: "rne (- q) = - rne q"
proof (cases "q = of_int \<lfloor>q\<rfloor>")
  case True
  then have "rne (- q) = rne (of_int (- \<lfloor>q\<rfloor>))" by simp
  also have "\<dots> = - \<lfloor>q\<rfloor>" by (rule rne_of_int)
  also have "\<dots> = - rne (of_int \<lfloor>q\<rfloor>)" by simp
  finally show ?thesis using True by simp
next
  case False
  then have "\<lceil>q\<rceil> = \<lfloor>q\<rfloor> + 1" by (simp add: ceiling_altdef)
  then have fl: "\<lfloor>- q\<rfloor> = - \<lfloor>q\<rfloor> - 1" by (simp add: ceiling_def)
  define f where "f = \<lfloor>q\<rfloor>"
  define r where "r = q - of_int f"
  have q: "q = of_int f + r" by (simp add: r_def)
  have r0: "0 < r" using False by (simp add: r_def f_def order.strict_iff_order)
  have e: "even (- f - 1) \<longleftrightarrow> odd f" by simp
  have "rne (- q) = (if 1 / 2 < r then - f - 1 else if r < 1 / 2 then - f
                     else if odd f then - f - 1 else - f)"
    unfolding rne_def Let_def fl f_def [symmetric] e
    by (simp add: q)
  moreover have "rne q = (if r < 1 / 2 then f else if 1 / 2 < r then f + 1
                     else if even f then f else f + 1)"
    unfolding rne_def Let_def f_def [symmetric] r_def [symmetric] by simp
  ultimately show ?thesis by simp
qed

lemma fl64_rgrid: "fl64 x = rgrid (binade x - 52) x"
  by (simp add: fl64_def rgrid_def)

lemma rgrid_mono: "x \<le> y \<Longrightarrow> rgrid e x \<le> rgrid e y"
  unfolding rgrid_def
  by (intro mult_right_mono) (simp_all add: rne_mono divide_right_mono)

lemma rgrid_minus: "rgrid e (- x) = - rgrid e x"
  by (simp add: rgrid_def rne_minus)

lemma rgrid_zero [simp]: "rgrid e 0 = 0"
  by (simp add: rgrid_def)

lemma pow2_int: "0 \<le> k \<Longrightarrow> (2 :: real) powr of_int k = of_int (2 ^ nat k)"
  by (simp add: powr_real_of_int)

lemma rgrid_of_int_mult:
  "rgrid e (of_int n * 2 powr of_int e) = of_int n * 2 powr of_int e"
  by (simp add: rgrid_def)

lemma rgrid_pow:
  assumes "e \<le> k" shows "rgrid e (2 powr of_int k) = 2 powr of_int k"
proof -
  have "(2 :: real) powr of_int k = 2 powr of_int (k - e) * 2 powr of_int e"
    by (simp add: powr_add [symmetric])
  also have "\<dots> = of_int (2 ^ nat (k - e)) * 2 powr of_int e"
    using assms by (simp only: pow2_int)
  finally have "(2 :: real) powr of_int k = of_int (2 ^ nat (k - e)) * 2 powr of_int e" .
  then show ?thesis by (simp only: rgrid_of_int_mult)
qed

lemma binade_minus [simp]: "binade (- x) = binade x"
  by (simp add: binade_def)

lemma binade_ge [simp]: "- 1022 \<le> binade x"
  by (simp add: binade_def)

lemma binade_upper:
  assumes "x \<noteq> 0" shows "\<bar>x\<bar> < 2 powr of_int (binade x + 1)"
proof -
  have "log 2 \<bar>x\<bar> < of_int (\<lfloor>log 2 \<bar>x\<bar>\<rfloor> + 1)" by linarith
  also have "\<dots> \<le> of_int (binade x + 1)" by (simp add: binade_def)
  finally have "2 powr log 2 \<bar>x\<bar> < 2 powr of_int (binade x + 1)" by simp
  with assms show ?thesis by simp
qed

lemma binade_lower:
  assumes "x \<noteq> 0" and "- 1022 < binade x"
  shows "2 powr of_int (binade x) \<le> \<bar>x\<bar>"
proof -
  from assms(2) have "binade x = \<lfloor>log 2 \<bar>x\<bar>\<rfloor>" by (simp add: binade_def max_def split: if_splits)
  then have "of_int (binade x) \<le> log 2 \<bar>x\<bar>" by simp
  then have "2 powr of_int (binade x) \<le> 2 powr log 2 \<bar>x\<bar>" by simp
  with assms(1) show ?thesis by simp
qed

lemma binade_mono:
  assumes "0 < x" and "x \<le> y" shows "binade x \<le> binade y"
proof -
  from assms have "log 2 \<bar>x\<bar> \<le> log 2 \<bar>y\<bar>" by simp
  then have "\<lfloor>log 2 \<bar>x\<bar>\<rfloor> \<le> \<lfloor>log 2 \<bar>y\<bar>\<rfloor>" by (rule floor_mono)
  then show ?thesis unfolding binade_def by (rule max.mono) simp
qed

lemma binade_eq:
  assumes "2 powr of_int e \<le> \<bar>x\<bar>" and "\<bar>x\<bar> < 2 powr of_int (e + 1)" and "- 1022 \<le> e"
  shows "binade x = e"
proof -
  from assms(1) have "0 < \<bar>x\<bar>" by (smt (verit) powr_gt_zero)
  then have "\<lfloor>log 2 \<bar>x\<bar>\<rfloor> = e" using assms(1,2) by (simp add: floor_log_eq_powr_iff)
  with assms(3) show ?thesis by (simp add: binade_def)
qed

lemma fl64_zero [simp]: "fl64 0 = 0"
  by (simp add: fl64_rgrid)

lemma fl64_minus: "fl64 (- x) = - fl64 x"
  by (simp add: fl64_rgrid rgrid_minus)

lemma fl64_nonneg: "0 \<le> x \<Longrightarrow> 0 \<le> fl64 x"
  using rgrid_mono [of 0 x "binade x - 52"] by (simp add: fl64_rgrid)

lemma fl64_mono_pos:
  assumes "0 < x" and "x \<le> y" shows "fl64 x \<le> fl64 y"
proof (cases "binade x = binade y")
  case True
  with assms(2) show ?thesis by (simp add: fl64_rgrid rgrid_mono)
next
  case False
  with binade_mono [OF assms] have lt: "binade x < binade y" by simp
  from assms have y: "0 < y" by simp
  have "x \<le> 2 powr of_int (binade x + 1)" using binade_upper [of x] assms(1) by simp
  then have "fl64 x \<le> rgrid (binade x - 52) (2 powr of_int (binade x + 1))"
    unfolding fl64_rgrid by (rule rgrid_mono)
  also have "\<dots> = 2 powr of_int (binade x + 1)" by (rule rgrid_pow) simp
  also have "\<dots> \<le> 2 powr of_int (binade y)" using lt by simp
  also have "\<dots> = rgrid (binade y - 52) (2 powr of_int (binade y))"
    by (rule rgrid_pow [symmetric]) simp
  also have "\<dots> \<le> fl64 y"
  proof -
    from lt have "- 1022 < binade y" using binade_ge [of x] by linarith
    with binade_lower [of y] y have "2 powr of_int (binade y) \<le> y" by simp
    then show ?thesis unfolding fl64_rgrid by (rule rgrid_mono)
  qed
  finally show ?thesis .
qed

lemma fl64_mono:
  assumes "x \<le> y" shows "fl64 x \<le> fl64 y"
proof -
  consider "0 < x" | "x \<le> 0" "0 \<le> y" | "y < 0" by linarith
  then show ?thesis
  proof cases
    case 1
    from 1 assms show ?thesis by (rule fl64_mono_pos)
  next
    case 2
    from 2(1) have "0 \<le> fl64 (- x)" by (simp add: fl64_nonneg)
    then have "fl64 x \<le> 0" by (simp add: fl64_minus)
    also from 2(2) have "0 \<le> fl64 y" by (rule fl64_nonneg)
    finally show ?thesis .
  next
    case 3
    with assms have "0 < - y" and "- y \<le> - x" by simp_all
    then have "fl64 (- y) \<le> fl64 (- x)" by (rule fl64_mono_pos)
    then show ?thesis by (simp add: fl64_minus)
  qed
qed

lemma fsub_mono: "a \<le> a' \<Longrightarrow> b' \<le> b \<Longrightarrow> fsub a b \<le> fsub a' b'"
  unfolding fsub_def by (rule fl64_mono) simp

lemma pow2_split:
  assumes "e' \<le> e"
  shows "(2 :: real) powr of_int e = of_int (2 ^ nat (e - e')) * 2 powr of_int e'"
proof -
  have "(2 :: real) powr of_int e = 2 powr of_int (e - e') * 2 powr of_int e'"
    by (simp add: powr_add [symmetric])
  with assms show ?thesis by (simp only: pow2_int)
qed

lemma fl64_on_grid: "on_grid (fl64 x)"
proof -
  have "(2 :: real) powr of_int (binade x - 52)
        = of_int (2 ^ nat (binade x - 52 - (- 1074))) * 2 powr of_int (- 1074)"
    by (rule pow2_split) (use binade_ge [of x] in linarith)
  then have "fl64 x = of_int (rne (x / 2 powr of_int (binade x - 52))
                * 2 ^ nat (binade x - 52 - (- 1074))) * 2 powr (- 1074)"
    by (simp add: fl64_def)
  then show ?thesis unfolding on_grid_def by blast
qed

lemma binary64_on_grid: "binary64 x \<Longrightarrow> on_grid x"
  using fl64_on_grid [of x] by (simp add: binary64_def)

lemma fl64_least: "fl64 (2 powr (- 1074)) = 2 powr (- 1074)"
proof -
  have "binade (2 powr (- 1074)) = - 1022" by (simp add: binade_def)
  then have "fl64 (2 powr (- 1074)) = rgrid (- 1074) (of_int 1 * 2 powr of_int (- 1074))"
    by (simp add: fl64_rgrid)
  also have "\<dots> = of_int 1 * 2 powr of_int (- 1074)" by (rule rgrid_of_int_mult)
  finally show ?thesis by simp
qed

lemma fsub_pos:
  assumes "on_grid a" and "on_grid b" and "b < a"
  shows "0 < fsub a b"
proof -
  from assms(1,2) obtain k l :: int
    where a: "a = of_int k * 2 powr (- 1074)" and b: "b = of_int l * 2 powr (- 1074)"
    unfolding on_grid_def by blast
  have m: "(0 :: real) < 2 powr (- 1074)" by simp
  from assms(3) a b m have "l < k" by (simp add: mult_less_cancel_right)
  then have "(1 :: real) \<le> of_int (k - l)" by simp
  then have "1 * 2 powr (- 1074) \<le> of_int (k - l) * (2 :: real) powr (- 1074)"
    by (intro mult_right_mono) simp_all
  then have "2 powr (- 1074) \<le> a - b" by (simp add: a b algebra_simps)
  then have "fl64 (2 powr (- 1074)) \<le> fl64 (a - b)" by (rule fl64_mono)
  then have "2 powr (- 1074) \<le> fl64 (a - b)" by (simp only: fl64_least)
  with m show ?thesis unfolding fsub_def by linarith
qed

lemma fsub_nonpos_iff:
  assumes "on_grid a" and "on_grid b"
  shows "fsub a b \<le> 0 \<longleftrightarrow> a \<le> b"
proof
  assume "fsub a b \<le> 0"
  with fsub_pos [OF assms] show "a \<le> b" by fastforce
next
  assume "a \<le> b"
  then have "fl64 (a - b) \<le> fl64 0" by (intro fl64_mono) simp
  then show "fsub a b \<le> 0" by (simp add: fsub_def)
qed

lemma fl64_eval:
  assumes "2 powr of_int e \<le> \<bar>x\<bar>" and "\<bar>x\<bar> < 2 powr of_int (e + 1)" and "- 1022 \<le> e"
  shows "fl64 x = of_int (rne (x / 2 powr of_int (e - 52))) * 2 powr of_int (e - 52)"
  using binade_eq [OF assms] by (simp add: fl64_def)

lemma binary64_int_pow:
  assumes "\<bar>n\<bar> < 2 ^ 53" and "- 1074 \<le> e"
  shows "fl64 (of_int n * 2 powr of_int e) = of_int n * 2 powr of_int e"
proof (cases "n = 0")
  case True
  then show ?thesis by simp
next
  case False
  define x :: real where "x = of_int n * 2 powr of_int e"
  from False have x0: "x \<noteq> 0" by (simp add: x_def)
  have "\<bar>x\<bar> = \<bar>of_int n\<bar> * 2 powr of_int e" by (simp add: x_def abs_mult)
  also have "\<dots> < 2 ^ 53 * 2 powr of_int e"
  proof (intro mult_strict_right_mono)
    from assms(1) have "real_of_int \<bar>n\<bar> < real_of_int (2 ^ 53)" by (simp only: of_int_less_iff)
    then show "\<bar>real_of_int n\<bar> < 2 ^ 53" by simp
  qed simp
  also have "\<dots> = 2 powr of_int (53 + e)" by (simp add: powr_add)
  finally have up: "\<bar>x\<bar> < 2 powr of_int (53 + e)" .
  have "binade x \<le> 52 + e"
  proof (rule ccontr)
    assume "\<not> binade x \<le> 52 + e"
    then have big: "53 + e \<le> binade x" by simp
    with assms(2) have "- 1022 < binade x" by simp
    from binade_lower [OF x0 this] have "2 powr of_int (binade x) \<le> \<bar>x\<bar>" .
    moreover from big have "(2 :: real) powr of_int (53 + e) \<le> 2 powr of_int (binade x)" by simp
    ultimately show False using up by simp
  qed
  then have "(2 :: real) powr of_int e
      = of_int (2 ^ nat (e - (binade x - 52))) * 2 powr of_int (binade x - 52)"
    by (intro pow2_split) simp
  then have "x = of_int (n * 2 ^ nat (e - (binade x - 52))) * 2 powr of_int (binade x - 52)"
    by (simp add: x_def)
  then have "rgrid (binade x - 52) x = x" by (metis rgrid_of_int_mult)
  then show ?thesis by (simp add: fl64_rgrid x_def)
qed

lemma binary64_of_int:
  "\<bar>n\<bar> < 2 ^ 53 \<Longrightarrow> fl64 (of_int n) = of_int n"
  using binary64_int_pow [of n 0] by simp

lemma pow2_neg_numeral: "(2 :: real) powr (- numeral n) = 1 / 2 ^ numeral n"
  by (simp add: powr_minus_divide)

subsection \<open>The cleanup on floats\<close>

lemma fl64_numeral: "(numeral n :: int) < 2 ^ 53 \<Longrightarrow> fl64 (numeral n) = numeral n"
  using binary64_of_int [of "numeral n"] by simp

lemma fl64_neg_numeral: "(numeral n :: int) < 2 ^ 53 \<Longrightarrow> fl64 (- numeral n) = - numeral n"
  using binary64_of_int [of "- numeral n"] by simp

lemma fl64_one: "fl64 1 = 1"
  using binary64_of_int [of 1] by simp

lemmas fl64_small = fsub_def fl64_numeral fl64_neg_numeral fl64_one

text \<open>The rounded cleanup is the exact cleanup at the clock value whose exact window start is the rounded one.\<close>

lemma cleanup_window64_exact:
  "cleanup_window64 s u t = cleanup_window s u (fsub t (window_size s) + window_size s)"
  by (simp add: cleanup_window64_def cleanup_window_def Let_def split: option.splits)

lemma sw_can_send_message64_exact:
  "sw_can_send_message64 s u t = sw_can_send_message s u (fsub t (window_size s) + window_size s)"
  by (simp add: sw_can_send_message64_def sw_can_send_message_def cleanup_window64_exact)

lemma sw_record_message64_exact:
  "sw_record_message64 s u tc t =
     sw_record_message s u (fsub tc (window_size s) + window_size s) t"
  by (simp add: sw_record_message64_def sw_record_message_def sw_can_send_message64_exact)

lemma sw_time_until_next_allowed64_state:
  "snd (sw_time_until_next_allowed64 s u t) = cleanup_window64 s u t"
  by (simp add: sw_time_until_next_allowed64_def Let_def)

lemma sw_call64_state:
  "\<exists>c'. snd (sw_call64 s c) = snd (sw_call s c')"
proof (cases c)
  case (CanSend u t)
  have "snd (sw_call64 s (CanSend u t))
      = snd (sw_call s (CanSend u (fsub t (window_size s) + window_size s)))"
    by (simp add: sw_can_send_message64_exact split: prod.splits)
  with CanSend show ?thesis by blast
next
  case (Record u tc t)
  have "snd (sw_call64 s (Record u tc t))
      = snd (sw_call s (Record u (fsub tc (window_size s) + window_size s) t))"
    by (simp add: sw_record_message64_exact split: prod.splits)
  with Record show ?thesis by blast
next
  case (TimeUntil u t)
  have "snd (sw_call64 s (TimeUntil u t)) = cleanup_window64 s u t"
    by (simp add: sw_time_until_next_allowed64_state [symmetric] split: prod.splits sum.splits)
  also have "\<dots> = snd (sw_call s (TimeUntil u (fsub t (window_size s) + window_size s)))"
    by (simp only: sw_call_TimeUntil_state cleanup_window64_exact)
  finally show ?thesis using TimeUntil by blast
qed

lemma sw_call64_nonempty_inv:
  assumes "entries_nonempty s" shows "entries_nonempty (snd (sw_call64 s c))"
proof -
  obtain c' where "snd (sw_call64 s c) = snd (sw_call s c')" using sw_call64_state by blast
  with assms show ?thesis by (simp add: sw_call_nonempty_inv)
qed

lemma sw_call64_bounded_inv:
  assumes "entries_bounded s" shows "entries_bounded (snd (sw_call64 s c))"
proof -
  obtain c' where "snd (sw_call64 s c) = snd (sw_call s c')" using sw_call64_state by blast
  with assms show ?thesis by (simp add: sw_call_bounded_inv)
qed

lemma sw_call64_fields [simp]:
  "window_size (snd (sw_call64 s c)) = window_size s"
  "max_requests (snd (sw_call64 s c)) = max_requests s"
proof -
  obtain c' where c': "snd (sw_call64 s c) = snd (sw_call s c')" using sw_call64_state by blast
  show "window_size (snd (sw_call64 s c)) = window_size s" by (simp add: c')
  show "max_requests (snd (sw_call64 s c)) = max_requests s" by (simp add: c')
qed

lemma sw_run64_nonempty_inv:
  "entries_nonempty s \<Longrightarrow> entries_nonempty (sw_run64 s cs)"
  by (induction cs arbitrary: s) (simp_all add: sw_call64_nonempty_inv)

lemma sw_run64_bounded_inv:
  "entries_bounded s \<Longrightarrow> entries_bounded (sw_run64 s cs)"
  by (induction cs arbitrary: s) (simp_all add: sw_call64_bounded_inv)

lemma sw_run64_fields [simp]:
  "window_size (sw_run64 s cs) = window_size s"
  "max_requests (sw_run64 s cs) = max_requests s"
  by (induction cs arbitrary: s) simp_all

subsection \<open>What record_message changes\<close>

lemma popleft_while_append_same:
  assumes "popleft_while w d @ [t] = d"
  shows "d = [t] \<and> popleft_while w d = []"
proof (cases d)
  case Nil
  with assms show ?thesis by simp
next
  case (Cons x xs)
  from assms have len: "length (popleft_while w d) + 1 = length d"
    by (metis length_append_singleton Suc_eq_plus1)
  have x: "x < w"
  proof (rule ccontr)
    assume "\<not> x < w"
    with Cons have "popleft_while w d = d" by simp
    with len show False by simp
  qed
  with Cons len have "length (popleft_while w xs) = length xs" by simp
  then have same: "popleft_while w xs = xs" by (rule popleft_while_same_length)
  with assms Cons x have shifted: "xs @ [t] = x # xs" by simp
  show ?thesis
  proof (cases xs)
    case Nil
    with shifted Cons x show ?thesis by simp
  next
    case (Cons y ys)
    with shifted have "y = x" by simp
    moreover from same Cons have "popleft_while w xs = y # ys" by simp
    then have "w \<le> y" by (rule popleft_while_hd)
    ultimately show ?thesis using x by simp
  qed
qed

lemma sw_admitted_same_iff:
  assumes adm: "fst (sw_record_message s u tc t)"
  shows "snd (sw_record_message s u tc t) = s \<longleftrightarrow>
         users_history s u = Some [t] \<and> users_history (cleanup_window s u tc) u = None"
proof
  assume same: "snd (sw_record_message s u tc t) = s"
  from adm have adm': "fst (sw_can_send_message s u tc)" by (simp add: sw_record_message_answer)
  let ?c = "cleanup_window s u tc"
  let ?d = "(case users_history ?c u of None \<Rightarrow> [] | Some d \<Rightarrow> d) @ [t]"
  from same have "users_history (snd (sw_record_message s u tc t)) u = users_history s u"
    by simp
  then have e: "users_history s u = Some ?d"
    by (simp add: sw_record_message_admitted [OF adm'])
  then obtain d0 where d0: "users_history s u = Some d0" and dd: "d0 = ?d" by simp
  from d0 have c: "(case users_history ?c u of None \<Rightarrow> [] | Some d \<Rightarrow> d)
        = popleft_while (tc - window_size s) d0"
    by (simp add: cleanup_window_entry)
  with dd have "popleft_while (tc - window_size s) d0 @ [t] = d0" by simp
  then have "d0 = [t] \<and> popleft_while (tc - window_size s) d0 = []"
    by (rule popleft_while_append_same)
  then have d0t: "d0 = [t]" and p: "popleft_while (tc - window_size s) [t] = []"
    by (auto split: if_splits)
  from d0 d0t have h: "users_history s u = Some [t]" by simp
  from h p have "users_history ?c u = None" by (simp add: cleanup_window_entry)
  with h show "users_history s u = Some [t] \<and> users_history ?c u = None" by simp
next
  assume a: "users_history s u = Some [t] \<and> users_history (cleanup_window s u tc) u = None"
  from adm have adm': "fst (sw_can_send_message s u tc)" by (simp add: sw_record_message_answer)
  from a have h: "users_history s u = Some [t]"
    and n: "users_history (cleanup_window s u tc) u = None" by simp_all
  from n have "popleft_while (tc - window_size s) [t] = []"
    unfolding cleanup_window_entry h by (simp split: if_splits)
  with a have c: "cleanup_window s u tc = s\<lparr>users_history := (users_history s)(u := None)\<rparr>"
    by (simp add: cleanup_window_def)
  have "snd (sw_record_message s u tc t)
      = s\<lparr>users_history := (users_history s)(u \<mapsto> [t])\<rparr>"
    by (simp add: sw_record_message_admitted [OF adm'] a) (simp add: c)
  also from a have "(users_history s)(u \<mapsto> [t]) = users_history s" by (simp add: fun_upd_idem)
  finally show "snd (sw_record_message s u tc t) = s" by simp
qed

lemma th_denied_unchanged64:
  "\<not> fst (th_record_message64 s u tc t) \<Longrightarrow> snd (th_record_message64 s u tc t) = s"
  by (simp add: th_record_message64_def split: if_splits)

lemma th_state_store_same:
  "s\<lparr>last_message_time := (last_message_time s)(u \<mapsto> t)\<rparr> = s \<longleftrightarrow> last_message_time s u = Some t"
proof
  assume "s\<lparr>last_message_time := (last_message_time s)(u \<mapsto> t)\<rparr> = s"
  then have "last_message_time (s\<lparr>last_message_time := (last_message_time s)(u \<mapsto> t)\<rparr>) u
      = last_message_time s u" by simp
  then show "last_message_time s u = Some t" by simp
next
  assume "last_message_time s u = Some t"
  then show "s\<lparr>last_message_time := (last_message_time s)(u \<mapsto> t)\<rparr> = s"
    by (simp add: fun_upd_idem)
qed

lemma th_admitted_same_iff64:
  "fst (th_record_message64 s u tc t) \<Longrightarrow>
   snd (th_record_message64 s u tc t) = s \<longleftrightarrow> last_message_time s u = Some t"
  by (simp add: th_record_message64_def th_state_store_same split: if_splits)

lemma sw_denied_only_cleanup64:
  "\<not> fst (sw_record_message64 s u tc t) \<Longrightarrow>
   snd (sw_record_message64 s u tc t) = cleanup_window64 s u tc"
  unfolding sw_record_message64_exact cleanup_window64_exact
  by (rule sw_denied_appends_nothing)

text \<open>
  C5, as the code has it. A \<open>record_message\<close> of the throttling limiter that returns false
  leaves the state as it was, in every state; one that returns true changes the state
  unless the timestamp stored for the user already equals the one it stores. A
  \<open>record_message\<close> of the sliding window that returns false leaves the state as it was, in
  every state reached by public calls from a new limiter; in any state it changes no more
  than the cleanup of its check removes. One that returns true changes the state, in every
  state, unless the user's deque holds exactly the timestamp that the call appends and the
  cleanup of the call's check removed it.
\<close>

theorem record_message_changes_state:
  "(\<not> fst (th_record_message64 s' u' tc' t')
      \<longrightarrow> snd (th_record_message64 s' u' tc' t') = s')
   \<and> (fst (th_record_message64 s' u' tc' t')
      \<longrightarrow> (snd (th_record_message64 s' u' tc' t') = s'
            \<longleftrightarrow> last_message_time s' u' = Some t'))
   \<and> (\<not> fst (sw_record_message64 (sw_run64 (SlidingWindowRateLimiter w n) cs) u tc t)
      \<longrightarrow> snd (sw_record_message64 (sw_run64 (SlidingWindowRateLimiter w n) cs) u tc t)
            = sw_run64 (SlidingWindowRateLimiter w n) cs)
   \<and> (\<not> fst (sw_record_message64 s u tc t)
      \<longrightarrow> snd (sw_record_message64 s u tc t) = cleanup_window64 s u tc)
   \<and> (fst (sw_record_message64 s u tc t)
      \<longrightarrow> (snd (sw_record_message64 s u tc t) = s
            \<longleftrightarrow> users_history s u = Some [t]
                \<and> users_history (cleanup_window64 s u tc) u = None))"
proof (intro conjI impI)
  assume "\<not> fst (th_record_message64 s' u' tc' t')"
  then show "snd (th_record_message64 s' u' tc' t') = s'" by (rule th_denied_unchanged64)
next
  assume "fst (th_record_message64 s' u' tc' t')"
  then show "snd (th_record_message64 s' u' tc' t') = s' \<longleftrightarrow> last_message_time s' u' = Some t'"
    by (rule th_admitted_same_iff64)
next
  let ?s = "sw_run64 (SlidingWindowRateLimiter w n) cs"
  have b: "entries_bounded ?s" by (rule sw_run64_bounded_inv) (rule initial_invariants)
  assume "\<not> fst (sw_record_message64 ?s u tc t)"
  then show "snd (sw_record_message64 ?s u tc t) = ?s"
    unfolding sw_record_message64_exact using b by (intro sw_denied_unchanged)
next
  assume "\<not> fst (sw_record_message64 s u tc t)"
  then show "snd (sw_record_message64 s u tc t) = cleanup_window64 s u tc"
    by (rule sw_denied_only_cleanup64)
next
  assume "fst (sw_record_message64 s u tc t)"
  then show "snd (sw_record_message64 s u tc t) = s
            \<longleftrightarrow> users_history s u = Some [t]
                \<and> users_history (cleanup_window64 s u tc) u = None"
    unfolding sw_record_message64_exact cleanup_window64_exact by (rule sw_admitted_same_iff)
qed

theorem record_message_changes_state_witness:
  "\<not> fst (th_record_message64 (th_run64 (ThrottlingRateLimiter 10) [Record ''u'' 0 0]) ''u'' 9 9)
   \<and> snd (th_record_message64 (th_run64 (ThrottlingRateLimiter 10) [Record ''u'' 0 0]) ''u'' 9 9)
       = th_run64 (ThrottlingRateLimiter 10) [Record ''u'' 0 0]
   \<and> fst (th_record_message64 (th_run64 (ThrottlingRateLimiter 0) [Record ''u'' 0 0]) ''u'' 3 3)
   \<and> snd (th_record_message64 (th_run64 (ThrottlingRateLimiter 0) [Record ''u'' 0 0]) ''u'' 3 3)
       \<noteq> th_run64 (ThrottlingRateLimiter 0) [Record ''u'' 0 0]
   \<and> \<not> fst (sw_record_message64
          (sw_run64 (SlidingWindowRateLimiter 10 1) [Record ''u'' 0 0]) ''u'' 5 5)
   \<and> snd (sw_record_message64
          (sw_run64 (SlidingWindowRateLimiter 10 1) [Record ''u'' 0 0]) ''u'' 5 5)
       = sw_run64 (SlidingWindowRateLimiter 10 1) [Record ''u'' 0 0]
   \<and> snd (sw_record_message64
          (sw_run64 (SlidingWindowRateLimiter 10 1) [Record ''u'' 0 0]) ''u'' 5 5)
       = cleanup_window64 (sw_run64 (SlidingWindowRateLimiter 10 1) [Record ''u'' 0 0]) ''u'' 5
   \<and> fst (sw_record_message64
          (sw_run64 (SlidingWindowRateLimiter 10 2) [Record ''u'' 0 0]) ''u'' 5 5)
   \<and> snd (sw_record_message64
          (sw_run64 (SlidingWindowRateLimiter 10 2) [Record ''u'' 0 0]) ''u'' 5 5)
       \<noteq> sw_run64 (SlidingWindowRateLimiter 10 2) [Record ''u'' 0 0]"
proof -
  let ?th = "th_run64 (ThrottlingRateLimiter 10) [Record ''u'' 0 0]"
  let ?tz = "th_run64 (ThrottlingRateLimiter 0) [Record ''u'' 0 0]"
  let ?sw = "sw_run64 (SlidingWindowRateLimiter 10 1) [Record ''u'' 0 0]"
  let ?sb = "sw_run64 (SlidingWindowRateLimiter 10 2) [Record ''u'' 0 0]"
  have a: "\<not> fst (th_record_message64 ?th ''u'' 9 9)"
    by (simp add: th_record_message64_def th_can_send_message64_def ThrottlingRateLimiter_def
          fl64_small)
  have b: "fst (th_record_message64 ?tz ''u'' 3 3)"
    by (simp add: th_record_message64_def th_can_send_message64_def ThrottlingRateLimiter_def
          fl64_small)
  have b': "last_message_time ?tz ''u'' \<noteq> Some 3"
    by (simp add: th_record_message64_def th_can_send_message64_def ThrottlingRateLimiter_def)
  have c: "\<not> fst (sw_record_message64 ?sw ''u'' 5 5)"
    by (simp add: sw_record_message64_def sw_can_send_message64_def cleanup_window64_def
          SlidingWindowRateLimiter_def fl64_small)
  have d: "fst (sw_record_message64 ?sb ''u'' 5 5)"
    by (simp add: sw_record_message64_def sw_can_send_message64_def cleanup_window64_def
          SlidingWindowRateLimiter_def fl64_small)
  have d': "users_history ?sb ''u'' \<noteq> Some [5]"
    by (simp add: sw_record_message64_def sw_can_send_message64_def cleanup_window64_def
          SlidingWindowRateLimiter_def)
  from a record_message_changes_state [of ?th "''u''" 9 9]
  have 1: "snd (th_record_message64 ?th ''u'' 9 9) = ?th" by blast
  from b b' record_message_changes_state [of ?tz "''u''" 3 3]
  have 2: "snd (th_record_message64 ?tz ''u'' 3 3) \<noteq> ?tz" by blast
  from c record_message_changes_state [of _ _ _ _ 10 1 "[Record ''u'' 0 0]" "''u''" 5 5]
  have 3: "snd (sw_record_message64 ?sw ''u'' 5 5) = ?sw" by blast
  from d d' record_message_changes_state [of _ _ _ _ _ _ _ "''u''" 5 5 ?sb]
  have 4: "snd (sw_record_message64 ?sb ''u'' 5 5) \<noteq> ?sb" by blast
  from c record_message_changes_state [of _ _ _ _ _ _ _ "''u''" 5 5 ?sw]
  have 5: "snd (sw_record_message64 ?sw ''u'' 5 5) = cleanup_window64 ?sw ''u'' 5" by blast
  from a b c d 1 2 3 4 5 show ?thesis by blast
qed

text \<open>
  The claim as written fails in three ways. A denied \<open>record_message\<close> changes a state
  that holds more timestamps than the limit, which no sequence of calls produces: the
  cleanup inside the check removes the stale one. An admitted \<open>record_message\<close> of the
  throttling limiter with \<open>min_interval = 0\<close> at the clock value already stored writes the
  same value again. An admitted \<open>record_message\<close> of a sliding window with a negative
  \<open>window_size\<close> at the clock value already stored removes that timestamp as stale and
  appends it again. In the last two the state after the call equals the state before.
\<close>

theorem record_message_mutation_counterexample:
  "\<not> fst (sw_record_message64
          \<lparr>window_size = 10, max_requests = 1, users_history = [''u'' \<mapsto> [0, 5, 7]]\<rparr> ''u'' 11 11)
   \<and> snd (sw_record_message64
          \<lparr>window_size = 10, max_requests = 1, users_history = [''u'' \<mapsto> [0, 5, 7]]\<rparr> ''u'' 11 11)
       \<noteq> \<lparr>window_size = 10, max_requests = 1, users_history = [''u'' \<mapsto> [0, 5, 7]]\<rparr>
   \<and> fst (th_record_message64 (th_run64 (ThrottlingRateLimiter 0) [Record ''u'' 0 0]) ''u'' 0 0)
   \<and> snd (th_record_message64 (th_run64 (ThrottlingRateLimiter 0) [Record ''u'' 0 0]) ''u'' 0 0)
       = th_run64 (ThrottlingRateLimiter 0) [Record ''u'' 0 0]
   \<and> fst (sw_record_message64
          (sw_run64 (SlidingWindowRateLimiter (- 5) 1) [Record ''u'' 0 0]) ''u'' 0 0)
   \<and> snd (sw_record_message64
          (sw_run64 (SlidingWindowRateLimiter (- 5) 1) [Record ''u'' 0 0]) ''u'' 0 0)
       = sw_run64 (SlidingWindowRateLimiter (- 5) 1) [Record ''u'' 0 0]"
proof -
  let ?s = "\<lparr>window_size = 10, max_requests = 1, users_history = [''u'' \<mapsto> [0, 5, 7]]\<rparr>"
  have "users_history (snd (sw_record_message64 ?s ''u'' 11 11)) ''u'' = Some [5, 7]"
    by (simp add: sw_record_message64_def sw_can_send_message64_def cleanup_window64_def
          fl64_small)
  moreover have "users_history ?s ''u'' \<noteq> Some [5, 7]" by simp
  ultimately have "snd (sw_record_message64 ?s ''u'' 11 11) \<noteq> ?s" by metis
  moreover have "\<not> fst (sw_record_message64 ?s ''u'' 11 11)"
    by (simp add: sw_record_message64_def sw_can_send_message64_def cleanup_window64_def
          fl64_small)
  moreover have "fst (th_record_message64 (th_run64 (ThrottlingRateLimiter 0) [Record ''u'' 0 0]) ''u'' 0 0)
   \<and> snd (th_record_message64 (th_run64 (ThrottlingRateLimiter 0) [Record ''u'' 0 0]) ''u'' 0 0)
       = th_run64 (ThrottlingRateLimiter 0) [Record ''u'' 0 0]"
    by (simp add: th_record_message64_def th_can_send_message64_def ThrottlingRateLimiter_def
          fl64_small)
  moreover have "fst (sw_record_message64
          (sw_run64 (SlidingWindowRateLimiter (- 5) 1) [Record ''u'' 0 0]) ''u'' 0 0)
   \<and> snd (sw_record_message64
          (sw_run64 (SlidingWindowRateLimiter (- 5) 1) [Record ''u'' 0 0]) ''u'' 0 0)
       = sw_run64 (SlidingWindowRateLimiter (- 5) 1) [Record ''u'' 0 0]"
    by (simp add: sw_record_message64_def sw_can_send_message64_def cleanup_window64_def
          SlidingWindowRateLimiter_def fl64_small)
  ultimately show ?thesis by blast
qed

subsection \<open>Entries of the dictionary\<close>

lemma cleanup_window64_entry:
  "users_history (cleanup_window64 s u t) u =
     (case users_history s u of
        None \<Rightarrow> None
      | Some d \<Rightarrow> if popleft_while (fsub t (window_size s)) d = [] then None
                  else Some (popleft_while (fsub t (window_size s)) d))"
  by (simp add: cleanup_window64_exact cleanup_window_entry split: option.splits)

lemma cleanup_window64_other:
  "v \<noteq> u \<Longrightarrow> users_history (cleanup_window64 s u t) v = users_history s v"
  by (simp add: cleanup_window64_exact)

lemma sw_can_send_message64_state:
  "snd (sw_can_send_message64 s u t) = cleanup_window64 s u t"
  by (simp add: sw_can_send_message64_def Let_def)

lemma sw_record_message64_other:
  "v \<noteq> u \<Longrightarrow> users_history (snd (sw_record_message64 s u tc t)) v = users_history s v"
  unfolding sw_record_message64_exact
  by (cases "fst (sw_can_send_message s u (fsub tc (window_size s) + window_size s))")
     (simp_all add: sw_record_message_admitted sw_record_message_denied)

text \<open>
  C7, as the code has it. After any sequence of public calls on a new sliding-window
  limiter, every user in \<open>users_history\<close> has a non-empty deque. A cleanup that empties
  the deque of a user deletes the user's entry. So when every timestamp of a user is
  below the window start that a \<open>can_send_message\<close> or \<open>time_until_next_allowed\<close> call for
  that user computes, the binary64 value of \<open>current_time - window_size\<close>, the user has no
  entry after the call. A call for one user leaves the entries of all other users as they
  were, aged out or not.
\<close>

theorem sw_entries_after_cleanup:
  "(users_history (sw_run64 (SlidingWindowRateLimiter w n) cs) v = Some d \<longrightarrow> d \<noteq> [])
   \<and> (users_history s u = Some d' \<and> popleft_while (fsub t (window_size s)) d' = []
        \<longrightarrow> users_history (cleanup_window64 s u t) u = None)
   \<and> (users_history s u = Some d' \<and> (\<forall>x \<in> set d'. x < fsub t (window_size s))
        \<longrightarrow> users_history (snd (sw_can_send_message64 s u t)) u = None
          \<and> users_history (snd (sw_time_until_next_allowed64 s u t)) u = None)
   \<and> (v' \<noteq> u
        \<longrightarrow> users_history (snd (sw_can_send_message64 s u t)) v' = users_history s v'
          \<and> users_history (snd (sw_time_until_next_allowed64 s u t)) v' = users_history s v'
          \<and> users_history (snd (sw_record_message64 s u tc t)) v' = users_history s v')"
proof (intro conjI impI)
  assume e: "users_history (sw_run64 (SlidingWindowRateLimiter w n) cs) v = Some d"
  have "entries_nonempty (sw_run64 (SlidingWindowRateLimiter w n) cs)"
    by (rule sw_run64_nonempty_inv) (rule initial_invariants)
  with e show "d \<noteq> []" by (simp add: entries_nonempty_def)
next
  assume "users_history s u = Some d' \<and> popleft_while (fsub t (window_size s)) d' = []"
  then show "users_history (cleanup_window64 s u t) u = None"
    by (simp add: cleanup_window64_entry)
next
  assume a: "users_history s u = Some d' \<and> (\<forall>x \<in> set d'. x < fsub t (window_size s))"
  then have "popleft_while (fsub t (window_size s)) d' = []"
    by (simp add: popleft_while_all_old)
  with a have n: "users_history (cleanup_window64 s u t) u = None"
    by (simp add: cleanup_window64_entry)
  from n show "users_history (snd (sw_can_send_message64 s u t)) u = None"
    by (simp add: sw_can_send_message64_state)
  from n show "users_history (snd (sw_time_until_next_allowed64 s u t)) u = None"
    by (simp add: sw_time_until_next_allowed64_state)
next
  assume "v' \<noteq> u"
  then show "users_history (snd (sw_can_send_message64 s u t)) v' = users_history s v'"
    by (simp add: sw_can_send_message64_state cleanup_window64_other)
next
  assume "v' \<noteq> u"
  then show "users_history (snd (sw_time_until_next_allowed64 s u t)) v' = users_history s v'"
    by (simp add: sw_time_until_next_allowed64_state cleanup_window64_other)
next
  assume "v' \<noteq> u"
  then show "users_history (snd (sw_record_message64 s u tc t)) v' = users_history s v'"
    by (rule sw_record_message64_other)
qed

theorem sw_entries_after_cleanup_witness:
  "users_history (sw_run64 (SlidingWindowRateLimiter 10 1) [Record ''u'' 0 0]) ''u'' = Some [0]
   \<and> [0 :: real] \<noteq> []
   \<and> users_history (cleanup_window64
        (sw_run64 (SlidingWindowRateLimiter 10 1) [Record ''u'' 0 0]) ''u'' 11) ''u'' = None
   \<and> users_history (snd (sw_can_send_message64
        (sw_run64 (SlidingWindowRateLimiter 10 1) [Record ''u'' 0 0]) ''u'' 11)) ''u'' = None
   \<and> users_history (snd (sw_time_until_next_allowed64
        (sw_run64 (SlidingWindowRateLimiter 10 1) [Record ''u'' 0 0]) ''u'' 11)) ''u'' = None
   \<and> users_history (snd (sw_record_message64
        (sw_run64 (SlidingWindowRateLimiter 10 1) [Record ''u'' 0 0]) ''v'' 11 11)) ''u''
       = Some [0]"
proof -
  let ?s = "sw_run64 (SlidingWindowRateLimiter 10 1) [Record ''u'' 0 0]"
  have e: "users_history ?s ''u'' = Some [0]"
    by (simp add: sw_record_message64_def sw_can_send_message64_def cleanup_window64_def
          SlidingWindowRateLimiter_def)
  have w: "window_size ?s = 10"
    by (simp only: sw_run64_fields) (simp add: SlidingWindowRateLimiter_def)
  have f: "fsub 11 (window_size ?s) = 1"
    by (simp only: w) (simp add: fl64_small)
  have p: "popleft_while (fsub 11 (window_size ?s)) [0] = []"
    by (simp only: f) simp
  have q: "\<forall>x \<in> set [0 :: real]. x < fsub 11 (window_size ?s)"
    by (simp only: f) simp
  have r: "''u'' \<noteq> ''v''" by simp
  from e p q r
    sw_entries_after_cleanup [of 10 1 "[Record ''u'' 0 0]" "''u''" "[0]" ?s "''u''" "[0]" 11]
    sw_entries_after_cleanup [of 10 1 "[Record ''u'' 0 0]" "''u''" "[0]" ?s "''v''" "[0]" 11 "''u''" 11]
  show ?thesis by (simp only: e) blast
qed

lemma fsub_age_example:
  "fsub (7130316800838861 / 4194304) (3602879701896397 / 18014398509481984) = 1700000000"
proof -
  have "(7130316800838861 / 4194304 :: real) - 3602879701896397 / 18014398509481984
      = 30624477466119373658993459 / 18014398509481984" by simp
  moreover have "fl64 (30624477466119373658993459 / 18014398509481984)
      = of_int (rne ((30624477466119373658993459 / 18014398509481984) / 2 powr of_int (30 - 52)))
          * 2 powr of_int (30 - 52)"
    by (rule fl64_eval) (simp_all add: pow2_neg_numeral)
  moreover have "\<dots> = 1700000000" by (simp add: rne_def pow2_neg_numeral)
  ultimately show ?thesis by (simp only: fsub_def)
qed

text \<open>
  The claim as written fails in two ways. The cleanup is made for the user of the call
  only: user \<open>a\<close> recorded at 0 under a window of 10 keeps the entry when \<open>b\<close> is checked
  at 100. And the window start is a rounded difference: with \<open>window_size\<close> the binary64
  value of 0.2, a timestamp 1700000000 and the clock at the binary64 value of
  1700000000.2, the timestamp is older than the exact window start, the computed window
  start is 1700000000, and the entry stays.
\<close>

theorem sw_aged_out_entry_counterexample:
  "users_history (sw_run64 (SlidingWindowRateLimiter 10 1)
        [Record ''a'' 0 0, CanSend ''b'' 100]) ''a'' = Some [0]
   \<and> (0 :: real) < 100 - 10
   \<and> users_history (sw_run64 (SlidingWindowRateLimiter (3602879701896397 / 18014398509481984) 1)
        [Record ''u'' 1700000000 1700000000, CanSend ''u'' (7130316800838861 / 4194304)]) ''u''
       = Some [1700000000]
   \<and> (1700000000 :: real) < 7130316800838861 / 4194304 - 3602879701896397 / 18014398509481984"
proof -
  have 1: "users_history (sw_run64 (SlidingWindowRateLimiter 10 1)
        [Record ''a'' 0 0, CanSend ''b'' 100]) ''a'' = Some [0]"
    by (simp add: sw_record_message64_def sw_can_send_message64_def cleanup_window64_def
          SlidingWindowRateLimiter_def)
  have 2: "users_history (sw_run64 (SlidingWindowRateLimiter (3602879701896397 / 18014398509481984) 1)
        [Record ''u'' 1700000000 1700000000, CanSend ''u'' (7130316800838861 / 4194304)]) ''u''
       = Some [1700000000]"
    by (simp add: sw_record_message64_def sw_can_send_message64_def cleanup_window64_def
          SlidingWindowRateLimiter_def fsub_age_example)
  from 1 2 show ?thesis by simp
qed

subsection \<open>A waiting time of zero\<close>

lemma sw_can_send_message64_answer:
  "fst (sw_can_send_message64 s u t) =
     (case users_history (cleanup_window64 s u t) u of
        None \<Rightarrow> True
      | Some d \<Rightarrow> int (length d) < max_requests s)"
  by (simp add: sw_can_send_message64_exact sw_can_send_message_answer cleanup_window64_exact)

lemma cleanup_window64_kept:
  assumes "users_history (cleanup_window64 s u t) u = Some d"
  shows "\<exists>x xs. d = x # xs \<and> fsub t (window_size s) \<le> x"
proof -
  from assms have "d \<noteq> []"
    unfolding cleanup_window64_exact by (rule cleanup_window_nonempty)
  then obtain x xs where d: "d = x # xs" by (cases d) auto
  from assms obtain d0 where "d = popleft_while (fsub t (window_size s)) d0"
    by (auto simp: cleanup_window64_entry split: option.splits if_splits)
  with d have "fsub t (window_size s) \<le> x" by (simp add: popleft_while_hd)
  with d show ?thesis by blast
qed

text \<open>
  C6, as the code has it. Durations are binary64 numbers. For the throttling limiter a
  waiting time of zero means that \<open>can_send_message\<close> at the same clock value answers true.
  For the sliding window a waiting time of zero means the same, except when the user is at
  the limit and the oldest timestamp kept lies on the window boundary: it is not below
  the window start that the cleanup computes, \<open>current_time - window_size\<close>, and the age
  that the waiting time is computed from, \<open>current_time - oldest\<close>, is at least
  \<open>window_size\<close>. The cleanup removes only timestamps strictly below the window start, so
  such a timestamp still counts. In exact arithmetic this is the one timestamp
  \<open>current_time - window_size\<close>; with rounded differences it is a small range around it.
\<close>

theorem zero_wait_means_can_send:
  "(binary64 (min_interval s') \<and> th_time_until_next_allowed64 s' u' t' = 0
      \<longrightarrow> th_can_send_message64 s' u' t')
   \<and> (binary64 (window_size s) \<and> fst (sw_time_until_next_allowed64 s u t) = Inr 0
      \<longrightarrow> fst (sw_can_send_message64 s u t)
        \<or> (\<exists>x xs. users_history (snd (sw_can_send_message64 s u t)) u = Some (x # xs)
              \<and> fsub t (window_size s) \<le> x \<and> window_size s \<le> fsub t x))"
proof (intro conjI impI)
  assume a: "binary64 (min_interval s') \<and> th_time_until_next_allowed64 s' u' t' = 0"
  show "th_can_send_message64 s' u' t'"
  proof (cases "last_message_time s' u'")
    case None
    then show ?thesis by (simp add: th_can_send_message64_def)
  next
    case (Some l)
    with a have "fsub (min_interval s') (fsub t' l) \<le> 0"
      by (simp add: th_time_until_next_allowed64_def max_def split: if_splits)
    moreover from a have "on_grid (min_interval s')" by (simp add: binary64_on_grid)
    moreover have "on_grid (fsub t' l)" unfolding fsub_def by (rule fl64_on_grid)
    ultimately have "min_interval s' \<le> fsub t' l" by (simp add: fsub_nonpos_iff)
    with Some show ?thesis by (simp add: th_can_send_message64_def)
  qed
next
  assume a: "binary64 (window_size s) \<and> fst (sw_time_until_next_allowed64 s u t) = Inr 0"
  show "fst (sw_can_send_message64 s u t)
        \<or> (\<exists>x xs. users_history (snd (sw_can_send_message64 s u t)) u = Some (x # xs)
              \<and> fsub t (window_size s) \<le> x \<and> window_size s \<le> fsub t x)"
  proof (cases "users_history (cleanup_window64 s u t) u")
    case None
    then show ?thesis by (simp add: sw_can_send_message64_answer)
  next
    case (Some d)
    from cleanup_window64_kept [OF Some] obtain x xs
      where d: "d = x # xs" and lo: "fsub t (window_size s) \<le> x" by blast
    have ws: "window_size (cleanup_window64 s u t) = window_size s"
      and mr: "max_requests (cleanup_window64 s u t) = max_requests s"
      by (simp_all add: cleanup_window64_exact)
    show ?thesis
    proof (cases "int (length d) < max_requests s")
      case True
      with Some show ?thesis by (simp add: sw_can_send_message64_answer)
    next
      case False
      with a Some d ws mr have "max 0 (fsub (window_size s) (fsub t x)) = 0"
        by (simp add: sw_time_until_next_allowed64_def Let_def)
      then have "fsub (window_size s) (fsub t x) \<le> 0" by (simp add: max_def split: if_splits)
      moreover from a have "on_grid (window_size s)" by (simp add: binary64_on_grid)
      moreover have "on_grid (fsub t x)" unfolding fsub_def by (rule fl64_on_grid)
      ultimately have "window_size s \<le> fsub t x" by (simp add: fsub_nonpos_iff)
      with Some d lo show ?thesis by (simp add: sw_can_send_message64_state)
    qed
  qed
qed

theorem zero_wait_means_can_send_witness:
  "th_time_until_next_allowed64
       (th_run64 (ThrottlingRateLimiter 10) [Record ''u'' 0 0]) ''u'' 12 = 0
   \<and> th_can_send_message64 (th_run64 (ThrottlingRateLimiter 10) [Record ''u'' 0 0]) ''u'' 12
   \<and> fst (sw_time_until_next_allowed64
       (sw_run64 (SlidingWindowRateLimiter 10 1) [Record ''u'' 0 0]) ''u'' 12) = Inr 0
   \<and> fst (sw_can_send_message64
       (sw_run64 (SlidingWindowRateLimiter 10 1) [Record ''u'' 0 0]) ''u'' 12)"
proof -
  let ?th = "th_run64 (ThrottlingRateLimiter 10) [Record ''u'' 0 0]"
  let ?sw = "sw_run64 (SlidingWindowRateLimiter 10 1) [Record ''u'' 0 0]"
  have i: "binary64 (min_interval ?th)"
    by (simp add: binary64_def th_record_message64_def th_can_send_message64_def
          ThrottlingRateLimiter_def fl64_small)
  have a: "th_time_until_next_allowed64 ?th ''u'' 12 = 0"
    by (simp add: th_time_until_next_allowed64_def th_record_message64_def
          th_can_send_message64_def ThrottlingRateLimiter_def fl64_small)
  have w: "binary64 (window_size ?sw)"
    by (simp only: sw_run64_fields) (simp add: binary64_def SlidingWindowRateLimiter_def fl64_small)
  have b: "fst (sw_time_until_next_allowed64 ?sw ''u'' 12) = Inr 0"
    by (simp add: sw_time_until_next_allowed64_def sw_record_message64_def
          sw_can_send_message64_def cleanup_window64_def SlidingWindowRateLimiter_def fl64_small)
  have n: "users_history (snd (sw_can_send_message64 ?sw ''u'' 12)) ''u'' = None"
    by (simp add: sw_record_message64_def sw_can_send_message64_def cleanup_window64_def
          SlidingWindowRateLimiter_def fl64_small)
  from i a w b n zero_wait_means_can_send [of ?th "''u''" 12 ?sw "''u''" 12]
  show ?thesis by simp
qed

lemma fsub_start_example:
  "fsub (5685794529555251 / 562949953421312) 10 = 56294995342131 / 562949953421312"
proof -
  have "fl64 (of_int 56294995342131 * 2 powr of_int (- 49))
      = of_int 56294995342131 * 2 powr of_int (- 49)"
    by (rule binary64_int_pow) simp_all
  then have "fl64 (56294995342131 / 562949953421312) = 56294995342131 / 562949953421312"
    by (simp add: pow2_neg_numeral)
  moreover have "(5685794529555251 / 562949953421312 :: real) - 10
      = 56294995342131 / 562949953421312" by simp
  ultimately show ?thesis by (simp only: fsub_def)
qed

lemma fsub_gap_example:
  "fsub (5685794529555251 / 562949953421312) (3602879701896397 / 36028797018963968) = 10"
proof -
  have "(5685794529555251 / 562949953421312 :: real) - 3602879701896397 / 36028797018963968
      = 360287970189639667 / 36028797018963968" by simp
  moreover have "fl64 (360287970189639667 / 36028797018963968)
      = of_int (rne ((360287970189639667 / 36028797018963968) / 2 powr of_int (3 - 52)))
          * 2 powr of_int (3 - 52)"
    by (rule fl64_eval) (simp_all add: pow2_neg_numeral)
  moreover have "\<dots> = 10" by (simp add: rne_def pow2_neg_numeral)
  ultimately show ?thesis by (simp only: fsub_def)
qed

text \<open>
  The claim as written fails on the sliding window at the window boundary. One message at
  clock value 0 under a window of 10 and a limit of 1: at clock value 10 the waiting time
  is 0 and \<open>can_send_message\<close> answers false. One message at the binary64 value of 0.1:
  at the binary64 value of 10.1 the waiting time is 0 and \<open>can_send_message\<close> answers
  false, and the timestamp is not \<open>current_time - window_size\<close>.
\<close>

theorem zero_wait_boundary_counterexample:
  "fst (sw_time_until_next_allowed64
          (sw_run64 (SlidingWindowRateLimiter 10 1) [Record ''u'' 0 0]) ''u'' 10) = Inr 0
   \<and> \<not> fst (sw_can_send_message64
          (sw_run64 (SlidingWindowRateLimiter 10 1) [Record ''u'' 0 0]) ''u'' 10)
   \<and> fst (sw_time_until_next_allowed64
          (sw_run64 (SlidingWindowRateLimiter 10 1)
             [Record ''u'' (3602879701896397 / 36028797018963968)
                           (3602879701896397 / 36028797018963968)])
          ''u'' (5685794529555251 / 562949953421312)) = Inr 0
   \<and> \<not> fst (sw_can_send_message64
          (sw_run64 (SlidingWindowRateLimiter 10 1)
             [Record ''u'' (3602879701896397 / 36028797018963968)
                           (3602879701896397 / 36028797018963968)])
          ''u'' (5685794529555251 / 562949953421312))
   \<and> (3602879701896397 / 36028797018963968 :: real) \<noteq> 5685794529555251 / 562949953421312 - 10"
proof -
  have 1: "fst (sw_time_until_next_allowed64
          (sw_run64 (SlidingWindowRateLimiter 10 1) [Record ''u'' 0 0]) ''u'' 10) = Inr 0
   \<and> \<not> fst (sw_can_send_message64
          (sw_run64 (SlidingWindowRateLimiter 10 1) [Record ''u'' 0 0]) ''u'' 10)"
    by (simp add: sw_time_until_next_allowed64_def sw_can_send_message64_def
          sw_record_message64_def cleanup_window64_def SlidingWindowRateLimiter_def fl64_small)
  have 2: "fst (sw_time_until_next_allowed64
          (sw_run64 (SlidingWindowRateLimiter 10 1)
             [Record ''u'' (3602879701896397 / 36028797018963968)
                           (3602879701896397 / 36028797018963968)])
          ''u'' (5685794529555251 / 562949953421312)) = Inr 0
   \<and> \<not> fst (sw_can_send_message64
          (sw_run64 (SlidingWindowRateLimiter 10 1)
             [Record ''u'' (3602879701896397 / 36028797018963968)
                           (3602879701896397 / 36028797018963968)])
          ''u'' (5685794529555251 / 562949953421312))"
    by (simp add: sw_time_until_next_allowed64_def sw_can_send_message64_def
          sw_record_message64_def cleanup_window64_def SlidingWindowRateLimiter_def
          fsub_start_example fsub_gap_example)
       (simp add: fl64_small)
  from 1 2 show ?thesis by simp
qed

subsection \<open>Spacing of admitted messages\<close>

lemma th_call64_kept_entry:
  assumes "last_message_time s u = Some a'" and "a \<le> a'" and "\<forall>r \<in> set (readings c). a \<le> r"
  shows "\<exists>a''. last_message_time (snd (th_call64 s c)) u = Some a'' \<and> a \<le> a''"
proof (cases c)
  case (Record v tc t)
  with assms show ?thesis by (auto simp: th_record_message64_def)
qed (use assms in simp_all)

lemma th_call64_min_interval [simp]:
  "min_interval (snd (th_call64 s c)) = min_interval s"
  by (cases c) (simp_all add: th_record_message64_def)

lemma th_spacing_after64:
  assumes "last_message_time s u = Some a'" and "a \<le> a'"
    and "\<forall>r \<in> set (concat (map readings cs)). a \<le> r"
    and "j < length cs" and "cs ! j = Record u b1 b2"
    and "th_outcomes64 s cs ! j = Answer True"
  shows "min_interval s \<le> fsub b1 a"
  using assms
proof (induction cs arbitrary: s a' j)
  case Nil
  then show ?case by simp
next
  case (Cons c cs)
  show ?case
  proof (cases j)
    case 0
    with Cons.prems have "th_can_send_message64 s u b1"
      by (simp add: th_record_message64_def split: if_splits)
    with Cons.prems(1) have "min_interval s \<le> fsub b1 a'"
      by (simp add: th_can_send_message64_def)
    also from Cons.prems(2) have "fsub b1 a' \<le> fsub b1 a" by (intro fsub_mono) simp_all
    finally show ?thesis .
  next
    case (Suc k)
    from Cons.prems(3) have rc: "\<forall>r \<in> set (readings c). a \<le> r"
      and rcs: "\<forall>r \<in> set (concat (map readings cs)). a \<le> r" by simp_all
    from th_call64_kept_entry [OF Cons.prems(1) Cons.prems(2) rc]
    obtain a'' where e: "last_message_time (snd (th_call64 s c)) u = Some a''"
      and le: "a \<le> a''" by blast
    from Suc Cons.prems have k: "k < length cs" "cs ! k = Record u b1 b2"
      "th_outcomes64 (snd (th_call64 s c)) cs ! k = Answer True" by simp_all
    from Cons.IH [OF e le rcs k] show ?thesis by simp
  qed
qed

text \<open>
  C2, as the code has it. Take any sequence of calls on a throttling limiter during which
  the clock never goes back. When two \<open>record_message\<close> calls for the same user both return
  true, the difference that the code computes between the clock value of the later call's
  check and the timestamp that the earlier call stored, a binary64 difference, is at least
  \<open>min_interval\<close>; so is the binary64 difference of the two timestamps stored. The check of
  the later call and the store of the earlier one are the two closest clock values of the
  two calls. The exact difference of the two instants can be below \<open>min_interval\<close> by the
  rounding of the subtraction.
\<close>

theorem th_admitted_spacing_rounded:
  assumes "clock_monotone cs" and "i < j" and "j < length cs"
    and "cs ! i = Record u a1 a2" and "cs ! j = Record u b1 b2"
    and "th_outcomes64 s cs ! i = Answer True" and "th_outcomes64 s cs ! j = Answer True"
  shows "min_interval s \<le> fsub b1 a2 \<and> min_interval s \<le> fsub b2 a2"
  using assms
proof (induction cs arbitrary: s i j)
  case Nil
  then show ?case by simp
next
  case (Cons c cs)
  from Cons.prems(2) obtain k where j: "j = Suc k" by (cases j) simp_all
  from clock_monotone_Cons [OF Cons.prems(1)]
  have sc: "sorted (readings c)" and mono: "clock_monotone cs"
    and later: "\<forall>x \<in> set (readings c). \<forall>r \<in> set (concat (map readings cs)). x \<le> r"
    by simp_all
  from j Cons.prems have k: "k < length cs" "cs ! k = Record u b1 b2"
    "th_outcomes64 (snd (th_call64 s c)) cs ! k = Answer True" by simp_all
  from k(1) have "cs ! k \<in> set cs" by simp
  with mono have "sorted (readings (cs ! k))" by (rule clock_monotone_call)
  with k(2) have b: "b1 \<le> b2" by simp
  show ?case
  proof (cases i)
    case 0
    with Cons.prems have c: "c = Record u a1 a2" and adm: "fst (th_record_message64 s u a1 a2)"
      by (simp_all split: prod.splits)
    then have e: "last_message_time (snd (th_call64 s c)) u = Some a2"
      by (simp add: th_record_message64_def split: if_splits)
    from later c have "\<forall>r \<in> set (concat (map readings cs)). a2 \<le> r" by simp
    from th_spacing_after64 [OF e order_refl this k]
    have 1: "min_interval s \<le> fsub b1 a2" by simp
    also from b have "fsub b1 a2 \<le> fsub b2 a2" by (intro fsub_mono) simp_all
    finally have "min_interval s \<le> fsub b2 a2" .
    with 1 show ?thesis by simp
  next
    case (Suc i')
    with j Cons.prems have "i' < k" "cs ! i' = Record u a1 a2"
      "th_outcomes64 (snd (th_call64 s c)) cs ! i' = Answer True" by simp_all
    from Cons.IH [OF mono this(1) k(1) this(2) k(2) this(3) k(3)] show ?thesis by simp
  qed
qed

theorem th_admitted_spacing_rounded_witness:
  "clock_monotone [Record ''u'' 0 0, Record ''u'' 9 9, Record ''u'' 12 13]
   \<and> th_outcomes64 (ThrottlingRateLimiter 10)
         [Record ''u'' 0 0, Record ''u'' 9 9, Record ''u'' 12 13]
       = [Answer True, Answer False, Answer True]
   \<and> min_interval (ThrottlingRateLimiter 10) \<le> fsub 12 0
   \<and> min_interval (ThrottlingRateLimiter 10) \<le> fsub 13 0"
proof -
  let ?cs = "[Record ''u'' 0 0, Record ''u'' 9 9, Record ''u'' 12 13]"
  have m: "clock_monotone ?cs" by (simp add: clock_monotone_def)
  have o: "th_outcomes64 (ThrottlingRateLimiter 10) ?cs = [Answer True, Answer False, Answer True]"
    by (simp add: th_record_message64_def th_can_send_message64_def ThrottlingRateLimiter_def
          fl64_small)
  have i: "(0 :: nat) < 2" and j: "2 < length ?cs" by simp_all
  have ci: "?cs ! 0 = Record ''u'' 0 0" and cj: "?cs ! 2 = Record ''u'' 12 13" by simp_all
  have oi: "th_outcomes64 (ThrottlingRateLimiter 10) ?cs ! 0 = Answer True"
    and oj: "th_outcomes64 (ThrottlingRateLimiter 10) ?cs ! 2 = Answer True"
    by (simp_all only: o) simp_all
  from th_admitted_spacing_rounded [OF m i j ci cj oi oj] m o show ?thesis by simp
qed

text \<open>
  The claim as written fails: with \<open>min_interval = 10\<close>, a \<open>record_message\<close> at the binary64
  value of 0.1 and one at the binary64 value of 10.1 are both admitted, because the
  difference rounds to 10, and the two instants are less than 10 apart.
\<close>

theorem th_spacing_rounding_counterexample:
  "clock_monotone
     [Record ''u'' (3602879701896397 / 36028797018963968) (3602879701896397 / 36028797018963968),
      Record ''u'' (5685794529555251 / 562949953421312) (5685794529555251 / 562949953421312)]
   \<and> th_outcomes64 (ThrottlingRateLimiter 10)
     [Record ''u'' (3602879701896397 / 36028797018963968) (3602879701896397 / 36028797018963968),
      Record ''u'' (5685794529555251 / 562949953421312) (5685794529555251 / 562949953421312)]
     = [Answer True, Answer True]
   \<and> (5685794529555251 / 562949953421312 :: real) - 3602879701896397 / 36028797018963968 < 10"
  by (simp add: clock_monotone_def th_record_message64_def th_can_send_message64_def
        ThrottlingRateLimiter_def fsub_gap_example)

subsection \<open>The properties of the first part on floats\<close>

text \<open>
  The waiting time on floats is not negative either, it is bounded by a binary64 duration
  under the same conditions, and the cleanup computed from a rounded window start is
  idempotent as well.
\<close>

lemma time_until_next_allowed64_nonneg:
  "(\<exists>w. fst (sw_time_until_next_allowed64 s u t) = Inr w \<and> 0 \<le> w)
   \<and> 0 \<le> th_time_until_next_allowed64 s' u' t'"
proof
  show "\<exists>w. fst (sw_time_until_next_allowed64 s u t) = Inr w \<and> 0 \<le> w"
  proof (cases "users_history (cleanup_window64 s u t) u")
    case None
    then show ?thesis by (simp add: sw_time_until_next_allowed64_def Let_def)
  next
    case (Some d)
    from cleanup_window64_kept [OF Some] obtain x xs where "d = x # xs" by blast
    with Some show ?thesis by (simp add: sw_time_until_next_allowed64_def Let_def)
  qed
  show "0 \<le> th_time_until_next_allowed64 s' u' t'"
    by (simp add: th_time_until_next_allowed64_def split: option.splits)
qed

lemma fsub_upper:
  assumes "binary64 w" and "x \<le> t" shows "fsub w (fsub t x) \<le> w"
proof -
  from assms(2) have "fl64 0 \<le> fl64 (t - x)" by (intro fl64_mono) simp
  then have "0 \<le> fsub t x" by (simp add: fsub_def)
  then have "fl64 (w - fsub t x) \<le> fl64 w" by (intro fl64_mono) simp
  with assms(1) show ?thesis by (simp add: fsub_def binary64_def)
qed

lemma time_until_next_allowed64_upper_bound:
  "((\<forall>d \<in> ran (users_history s). \<forall>x \<in> set d. x \<le> t) \<and> 0 \<le> window_size s
      \<and> binary64 (window_size s)
      \<longrightarrow> (\<exists>w. fst (sw_time_until_next_allowed64 s u t) = Inr w \<and> w \<le> window_size s))
   \<and> ((\<forall>l \<in> ran (last_message_time s'). l \<le> t') \<and> 0 \<le> min_interval s'
      \<and> binary64 (min_interval s')
      \<longrightarrow> th_time_until_next_allowed64 s' u' t' \<le> min_interval s')"
proof (intro conjI impI)
  assume a: "(\<forall>d \<in> ran (users_history s). \<forall>x \<in> set d. x \<le> t) \<and> 0 \<le> window_size s
      \<and> binary64 (window_size s)"
  show "\<exists>w. fst (sw_time_until_next_allowed64 s u t) = Inr w \<and> w \<le> window_size s"
  proof (cases "users_history (cleanup_window64 s u t) u")
    case None
    with a show ?thesis by (simp add: sw_time_until_next_allowed64_def Let_def)
  next
    case (Some d)
    from cleanup_window64_kept [OF Some] obtain x xs where d: "d = x # xs" by blast
    from Some obtain d0 where d0: "users_history s u = Some d0"
      and dd: "d = popleft_while (fsub t (window_size s)) d0"
      by (auto simp: cleanup_window64_entry split: option.splits if_splits)
    have "x \<in> set d0" using popleft_while_subset [of "fsub t (window_size s)" d0] d dd by auto
    moreover from d0 have "d0 \<in> ran (users_history s)" by (auto simp: ran_def)
    ultimately have "x \<le> t" using a by blast
    with a have "fsub (window_size s) (fsub t x) \<le> window_size s" by (simp add: fsub_upper)
    with a Some d show ?thesis
      by (simp add: sw_time_until_next_allowed64_def Let_def cleanup_window64_exact)
  qed
next
  assume a: "(\<forall>l \<in> ran (last_message_time s'). l \<le> t') \<and> 0 \<le> min_interval s'
      \<and> binary64 (min_interval s')"
  show "th_time_until_next_allowed64 s' u' t' \<le> min_interval s'"
  proof (cases "last_message_time s' u'")
    case None
    with a show ?thesis by (simp add: th_time_until_next_allowed64_def)
  next
    case (Some l)
    then have "l \<in> ran (last_message_time s')" by (auto simp: ran_def)
    with a have "l \<le> t'" by blast
    with a have "fsub (min_interval s') (fsub t' l) \<le> min_interval s'" by (simp add: fsub_upper)
    with a Some show ?thesis by (simp add: th_time_until_next_allowed64_def)
  qed
qed

lemma cleanup_window64_idem:
  "cleanup_window64 (cleanup_window64 s u t) u t = cleanup_window64 s u t"
proof -
  have "window_size (cleanup_window64 s u t) = window_size s"
    by (simp add: cleanup_window64_exact)
  then show ?thesis by (simp add: cleanup_window64_exact cleanup_window_idem)
qed

lemma read_only_checks64_idempotent:
  "sw_can_send_message64 (cleanup_window64 s u t) u t = sw_can_send_message64 s u t"
  "sw_time_until_next_allowed64 (cleanup_window64 s u t) u t = sw_time_until_next_allowed64 s u t"
  by (simp_all add: sw_can_send_message64_def sw_time_until_next_allowed64_def
        cleanup_window64_idem)

end
